theory Spec2Isabelle
  imports
    Complex_Main
    "HOL-Library.FSet"
    "HOL-Library.List_Lexorder"
    "HOL-Library.Char_ord"
    "HOL-Library.Multiset"
    "HOL-Library.Log_Nat"
begin

section \<open>Data model\<close>

text \<open>
  Python strings are compared by code point; a \<^typ>\<open>string\<close> here is the UTF-8 byte
  sequence, ordered lexicographically by byte value, which is the same order.
  The exceptions the two modules can raise are values of \<open>py_error\<close>.
\<close>

datatype py_error = ValueError | ZeroDivisionError | OverflowError | TypeError

text \<open>\<open>class Person\<close>: \<open>self.id = nickname\<close>.\<close>

record Person =
  nickname :: string
  gender :: string
  person_id :: string

definition Person_init :: "string \<Rightarrow> string \<Rightarrow> Person" where
  "Person_init nick gen = \<lparr>nickname = nick, gender = gen, person_id = nick\<rparr>"

text \<open>The two gender labels of the source, as UTF-8 bytes (U+B0A8 and U+C5EC).\<close>

definition male_label :: string where
  "male_label = [CHR 0xEB, CHR 0x82, CHR 0xA8]"

definition female_label :: string where
  "female_label = [CHR 0xEC, CHR 0x97, CHR 0xAC]"

section \<open>The bound analyzer (\<open>social_grouping_analyzer.py\<close>)\<close>

record SocialGroupingAnalyzer =
  total_people :: int
  analyzer_group_size :: int
  analyzer_num_groups :: int
  total_pairs :: int
  pairs_per_group :: int
  pairs_per_round :: int
  max_theoretical_rounds :: real
  max_practical_rounds :: int

text \<open>
  \<open>int(x)\<close> on a float truncates toward zero.
\<close>

definition py_int :: "real \<Rightarrow> int" where
  "py_int x = (if 0 \<le> x then \<lfloor>x\<rfloor> else \<lceil>x\<rceil>)"

text \<open>
  Python's true division of two integers, \<open>a / b\<close>. It raises
  \<open>ZeroDivisionError\<close> for a zero divisor; otherwise the result is the double nearest
  to the exact quotient, ties going to the even significand, and \<open>OverflowError\<close>
  when that is beyond the range of a double. The double is kept as the real number
  it denotes. The pieces:

  \<^item> \<open>round_half_even n d\<close> is the integer nearest to \<open>n / d\<close> for \<open>d > 0\<close>, ties to
    even;
  \<^item> \<open>pow2_le n a b\<close> decides \<open>2^n \<le> a / b\<close> for \<open>b > 0\<close>, and \<open>floor_log2 a b\<close> is
    the \<open>n\<close> with \<open>2^n \<le> a / b < 2^(n + 1)\<close> for positive \<open>a\<close> and \<open>b\<close>;
  \<^item> a double has a significand of 53 bits and an exponent of the last bit of at
    least \<open>-1074\<close>; its magnitude is below \<open>2^1024\<close>.
\<close>

definition round_half_even :: "int \<Rightarrow> int \<Rightarrow> int" where
  "round_half_even n d =
     (let q = n div d; r = n mod d
      in if 2 * r < d then q
         else if d < 2 * r then q + 1
         else if even q then q else q + 1)"

definition pow2_le :: "int \<Rightarrow> int \<Rightarrow> int \<Rightarrow> bool" where
  "pow2_le n a b = (if 0 \<le> n then b * 2 ^ nat n \<le> a else b \<le> a * 2 ^ nat (- n))"

definition floor_log2 :: "int \<Rightarrow> int \<Rightarrow> int" where
  "floor_log2 a b =
     (let d = bitlen a - bitlen b in if pow2_le d a b then d else d - 1)"

definition true_divide :: "int \<Rightarrow> int \<Rightarrow> py_error + real" where
  "true_divide a b =
     (if b = 0 then Inl ZeroDivisionError
      else if a = 0 then Inr 0
      else
        (let e = max (floor_log2 \<bar>a\<bar> \<bar>b\<bar> - 52) (- 1074);
             m = (if 0 \<le> e then round_half_even \<bar>a\<bar> (\<bar>b\<bar> * 2 ^ nat e)
                  else round_half_even (\<bar>a\<bar> * 2 ^ nat (- e)) \<bar>b\<bar>);
             r = (if 0 \<le> e then real_of_int (m * 2 ^ nat e)
                  else real_of_int m / 2 ^ nat (- e))
         in if 2 ^ 1024 \<le> r then Inl OverflowError
            else Inr (real_of_int (sgn a * sgn b) * r)))"

text \<open>
  \<open>_calculate_theoretical_limits\<close>, given the fields \<open>N\<close>, \<open>n\<close> and \<open>num_groups\<close> set
  by the constructor. \<open>//\<close> is floor division, which is \<open>div\<close> on \<^typ>\<open>int\<close>, and
  \<open>total_pairs / pairs_per_round\<close> is the true division above.
\<close>

definition calculate_theoretical_limits ::
    "int \<Rightarrow> int \<Rightarrow> int \<Rightarrow> py_error + SocialGroupingAnalyzer" where
  "calculate_theoretical_limits N n ng =
     (let tp = N * (N - 1) div 2;
          ppg = n * (n - 1) div 2;
          ppr = ng * ppg
      in case true_divide tp ppr of
           Inl e \<Rightarrow> Inl e
         | Inr mtr \<Rightarrow>
             Inr \<lparr>total_people = N, analyzer_group_size = n, analyzer_num_groups = ng,
                  total_pairs = tp, pairs_per_group = ppg, pairs_per_round = ppr,
                  max_theoretical_rounds = mtr, max_practical_rounds = py_int mtr\<rparr>)"

text \<open>
  \<open>SocialGroupingAnalyzer.__init__\<close>. \<open>self.N % self.n\<close> raises
  \<open>ZeroDivisionError\<close> when \<open>n = 0\<close>; \<open>%\<close> takes the sign of the divisor, as \<open>mod\<close>
  on \<^typ>\<open>int\<close> does.
\<close>

definition SocialGroupingAnalyzer_init :: "int \<Rightarrow> int \<Rightarrow> py_error + SocialGroupingAnalyzer" where
  "SocialGroupingAnalyzer_init N n =
     (if n = 0 then Inl ZeroDivisionError
      else if N mod n \<noteq> 0 then Inl ValueError
      else calculate_theoretical_limits N n (N div n))"

section \<open>The session (\<open>social_grouping_program.py\<close>)\<close>

type_synonym pair_key = "string \<times> string"

record SocialGroupingProgram =
  people :: "Person list"
  group_size :: int
  num_groups :: int
  previous_meetings :: "pair_key fset"
  round_history :: "Person list list list"
  current_round :: int

text \<open>
  \<open>SocialGroupingProgram.__init__\<close>: the only statement that can raise is
  \<open>len(people) // group_size\<close>.
\<close>

definition SocialGroupingProgram_init ::
    "Person list \<Rightarrow> int \<Rightarrow> py_error + SocialGroupingProgram" where
  "SocialGroupingProgram_init ps gs =
     (if gs = 0 then Inl ZeroDivisionError
      else Inr \<lparr>people = ps, group_size = gs, num_groups = int (length ps) div gs,
                previous_meetings = {||}, round_history = [], current_round = 0\<rparr>)"

subsection \<open>The meeting ledger\<close>

text \<open>
  The body of the inner loop of \<open>add_meetings\<close>: the pair is stored with the smaller
  nickname first.
\<close>

definition record_pair :: "string \<Rightarrow> string \<Rightarrow> pair_key fset \<Rightarrow> pair_key fset" where
  "record_pair person1 person2 L =
     (if person1 < person2 then finsert (person1, person2) L
      else finsert (person2, person1) L)"

text \<open>
  The two index loops over one group: \<open>for i in range(len(group))\<close>,
  \<open>for j in range(i + 1, len(group))\<close>.
\<close>

definition add_meetings_group :: "Person list \<Rightarrow> pair_key fset \<Rightarrow> pair_key fset" where
  "add_meetings_group grp L =
     fold (\<lambda>i. fold (\<lambda>j. record_pair (nickname (grp ! i)) (nickname (grp ! j)))
                     [i + 1 ..< length grp])
          [0 ..< length grp] L"

definition add_meetings :: "SocialGroupingProgram \<Rightarrow> Person list list \<Rightarrow> SocialGroupingProgram" where
  "add_meetings s groups =
     s\<lparr>previous_meetings := fold add_meetings_group groups (previous_meetings s)\<rparr>"

text \<open>\<open>tuple(sorted([a, b]))\<close>: the sort is stable, so \<open>b\<close> comes first only when \<open>b < a\<close>.\<close>

definition sorted_key :: "string \<Rightarrow> string \<Rightarrow> pair_key" where
  "sorted_key a b = (if b < a then (b, a) else (a, b))"

definition get_meeting_count :: "SocialGroupingProgram \<Rightarrow> Person \<Rightarrow> Person \<Rightarrow> int" where
  "get_meeting_count s person1 person2 =
     (let key = sorted_key (nickname person1) (nickname person2)
      in if key |\<in>| previous_meetings s then 1 else 0)"

subsection \<open>The cost model\<close>

definition calculate_group_score :: "SocialGroupingProgram \<Rightarrow> Person list \<Rightarrow> int" where
  "calculate_group_score s grp =
     fold (\<lambda>i. fold (\<lambda>j score. score + get_meeting_count s (grp ! i) (grp ! j))
                     [i + 1 ..< length grp])
          [0 ..< length grp] 0"

definition calculate_gender_balance_score :: "SocialGroupingProgram \<Rightarrow> Person list \<Rightarrow> int" where
  "calculate_gender_balance_score s grp =
     (let male_count = sum_list [1. p \<leftarrow> grp, gender p = male_label];
          female_count = int (length grp) - male_count;
          ideal_male = group_size s div 2;
          ideal_female = group_size s - ideal_male
      in \<bar>male_count - ideal_male\<bar> + \<bar>female_count - ideal_female\<bar>)"

text \<open>
  The scoring loop of \<open>generate_groups_genetic\<close>: the repeat count of each group plus
  twice its balance score.
\<close>

definition total_score :: "SocialGroupingProgram \<Rightarrow> Person list list \<Rightarrow> int" where
  "total_score s groups =
     fold (\<lambda>grp t. t + calculate_group_score s grp
                           + calculate_gender_balance_score s grp * 2)
          groups 0"

subsection \<open>The search\<close>

text \<open>\<open>range(n)\<close> is empty for \<open>n \<le> 0\<close>.\<close>

definition py_range :: "int \<Rightarrow> int list" where
  "py_range n = map int [0 ..< nat n]"

text \<open>
  \<open>xs[start:stop]\<close>: a negative index counts from the end, and both ends are clamped
  to the list.
\<close>

definition py_slice :: "'a list \<Rightarrow> int \<Rightarrow> int \<Rightarrow> 'a list" where
  "py_slice xs start stop =
     (let n = int (length xs);
          clamp = (\<lambda>i. if i < 0 then max (i + n) 0 else min i n);
          a = clamp start;
          b = clamp stop
      in take (nat (b - a)) (drop (nat a) xs))"

text \<open>The slicing loop: \<open>num_groups\<close> consecutive blocks of \<open>group_size\<close> people.\<close>

definition make_groups :: "SocialGroupingProgram \<Rightarrow> Person list \<Rightarrow> Person list list" where
  "make_groups s shuffled_people =
     map (\<lambda>i. let start_idx = i * group_size s;
                   end_idx = start_idx + group_size s
               in py_slice shuffled_people start_idx end_idx)
         (py_range (num_groups s))"

text \<open>
  The module-level random generator is state outside the session. Its model is the
  sequence of outcomes of \<open>random.shuffle\<close>: \<open>sh c xs\<close> is what call number \<open>c\<close> makes
  of the list \<open>xs\<close>, and the generator's state is the number of calls made so far.
\<close>

type_synonym shuffler = "nat \<Rightarrow> Person list \<Rightarrow> Person list"

text \<open>\<open>best_score\<close> starts at \<open>float('inf')\<close>, which every integer is below.\<close>

datatype best_score = Infinity | Score int

fun score_less :: "int \<Rightarrow> best_score \<Rightarrow> bool" where
  "score_less t Infinity = True"
| "score_less t (Score b) = (t < b)"

text \<open>
  The loop \<open>for iteration in range(max_iterations)\<close> with its \<open>break\<close>. The result is
  \<open>best_groups\<close>, \<open>best_score\<close> and the number of iterations that ran, each of which
  made one call of \<open>random.shuffle\<close>.
\<close>

function genetic_loop ::
    "SocialGroupingProgram \<Rightarrow> shuffler \<Rightarrow> nat \<Rightarrow> nat \<Rightarrow> nat
      \<Rightarrow> Person list list option \<times> best_score
      \<Rightarrow> (Person list list option \<times> best_score) \<times> nat" where
  "genetic_loop s sh pos n iteration (best_groups, best) =
     (if iteration < n then
        (let shuffled_people = sh (pos + iteration) (people s);
             groups = make_groups s shuffled_people;
             total = total_score s groups
         in if score_less total best then
              (if total = 0 then ((Some groups, Score total), Suc iteration)
               else genetic_loop s sh pos n (Suc iteration) (Some groups, Score total))
            else genetic_loop s sh pos n (Suc iteration) (best_groups, best))
      else ((best_groups, best), iteration))"
  by pat_completeness auto
termination
  by (relation "measure (\<lambda>(s, sh, pos, n, iteration, st). n - iteration)") auto

text \<open>
  \<open>generate_groups_genetic\<close>, started with the generator at call number \<open>pos\<close>; it
  returns \<open>best_groups\<close> (\<open>None\<close> as in the source) and the generator's new state.
\<close>

definition generate_groups_genetic ::
    "SocialGroupingProgram \<Rightarrow> shuffler \<Rightarrow> nat \<Rightarrow> int \<Rightarrow> Person list list option \<times> nat" where
  "generate_groups_genetic s sh pos max_iterations =
     (case genetic_loop s sh pos (nat max_iterations) 0 (None, Infinity) of
        ((best_groups, best), iterations) \<Rightarrow> (best_groups, pos + iterations))"

subsection \<open>Rounds, statistics and export\<close>

text \<open>
  \<open>print_groups\<close> only reads the session; what it prints at the end are the number of
  pairs of the round that had met before and the number of new pairs.
\<close>

definition print_groups :: "SocialGroupingProgram \<Rightarrow> Person list list \<Rightarrow> int \<Rightarrow> int \<times> int" where
  "print_groups s groups round_num =
     (let total_previous_meetings = fold (\<lambda>grp t. t + calculate_group_score s grp) groups 0
      in (total_previous_meetings,
          int (length groups) * (group_size s * (group_size s - 1) div 2)
            - total_previous_meetings))"

text \<open>
  \<open>create_new_round\<close> on the session and the generator state. It returns the groups,
  or the exception, together with the state it leaves behind. Had the search returned
  \<open>None\<close>, \<open>print_groups\<close> would raise \<open>TypeError\<close> on \<open>enumerate(None)\<close>, after
  the round counter was incremented.
\<close>

definition create_new_round ::
    "shuffler \<Rightarrow> SocialGroupingProgram \<times> nat
      \<Rightarrow> (py_error + Person list list) \<times> (SocialGroupingProgram \<times> nat)" where
  "create_new_round sh w =
     (case w of (s, pos) \<Rightarrow>
        (let s1 = s\<lparr>current_round := current_round s + 1\<rparr>
         in case generate_groups_genetic s1 sh pos 1000 of
              (None, pos') \<Rightarrow> (Inl TypeError, (s1, pos'))
            | (Some groups, pos') \<Rightarrow>
                (let printed = print_groups s1 groups (current_round s1);
                     s2 = add_meetings s1 groups;
                     s3 = s2\<lparr>round_history := round_history s2 @ [groups]\<rparr>
                 in (Inr groups, (s3, pos')))))"

text \<open>
  \<open>show_statistics\<close> prints the size of the ledger, the number of possible pairs and,
  after the first round, the bound on the rounds and the rounds left. The percentage
  it prints divides by the number of possible pairs.
\<close>

record statistics =
  recorded_meetings :: nat
  possible_meetings :: int
  round_estimate :: "(int \<times> int) option"

definition show_statistics :: "SocialGroupingProgram \<Rightarrow> py_error + statistics" where
  "show_statistics s =
     (let n = int (length (people s));
          possible = n * (n - 1) div 2
      in if possible = 0 then Inl ZeroDivisionError
         else if current_round s > 0 then
           (let per_round = num_groups s * (group_size s * (group_size s - 1) div 2)
            in if per_round = 0 then Inl ZeroDivisionError
               else
                 (let theoretical_max = possible div per_round
                  in Inr \<lparr>recorded_meetings = fcard (previous_meetings s),
                          possible_meetings = possible,
                          round_estimate =
                            Some (theoretical_max, max 0 (theoretical_max - current_round s))\<rparr>))
         else Inr \<lparr>recorded_meetings = fcard (previous_meetings s),
                   possible_meetings = possible, round_estimate = None\<rparr>)"

text \<open>\<open>save_history\<close>: the data written to the file.\<close>

record history_data =
  export_total_people :: int
  export_group_size :: int
  export_rounds :: "(int \<times> string list list) list"

definition save_history :: "SocialGroupingProgram \<Rightarrow> history_data" where
  "save_history s =
     \<lparr>export_total_people = int (length (people s)),
      export_group_size = group_size s,
      export_rounds =
        map (\<lambda>(round_num, groups). (int round_num, map (map nickname) groups))
            (zip [1 ..< Suc (length (round_history s))] (round_history s))\<rparr>"

subsection \<open>The methods as state transformers\<close>

text \<open>
  A method can assign to the fields of \<open>self\<close>. Here each method of the session is
  written with \<open>self\<close> made explicit: it takes the session and returns its result
  together with the session as the method leaves it, and a method that calls another
  goes on with the session that the call returns. \<open>add_meetings\<close> above has this form
  already; of the bodies below only \<open>create_new_round\<close> assigns to a field.
\<close>

definition get_meeting_count_st ::
    "Person \<Rightarrow> Person \<Rightarrow> SocialGroupingProgram \<Rightarrow> int \<times> SocialGroupingProgram" where
  "get_meeting_count_st person1 person2 s =
     (let key = sorted_key (nickname person1) (nickname person2)
      in (if key |\<in>| previous_meetings s then 1 else 0, s))"

definition calculate_group_score_st ::
    "Person list \<Rightarrow> SocialGroupingProgram \<Rightarrow> int \<times> SocialGroupingProgram" where
  "calculate_group_score_st grp s =
     fold (\<lambda>i. fold (\<lambda>j (score, s).
                       case get_meeting_count_st (grp ! i) (grp ! j) s of
                         (met, s') \<Rightarrow> (score + met, s'))
                     [i + 1 ..< length grp])
          [0 ..< length grp] (0, s)"

definition calculate_gender_balance_score_st ::
    "Person list \<Rightarrow> SocialGroupingProgram \<Rightarrow> int \<times> SocialGroupingProgram" where
  "calculate_gender_balance_score_st grp s =
     (let male_count = sum_list [1. p \<leftarrow> grp, gender p = male_label];
          female_count = int (length grp) - male_count;
          ideal_male = group_size s div 2;
          ideal_female = group_size s - ideal_male
      in (\<bar>male_count - ideal_male\<bar> + \<bar>female_count - ideal_female\<bar>, s))"

definition total_score_st ::
    "Person list list \<Rightarrow> SocialGroupingProgram \<Rightarrow> int \<times> SocialGroupingProgram" where
  "total_score_st groups s =
     fold (\<lambda>grp (t, s).
             case calculate_group_score_st grp s of
               (repeats, s1) \<Rightarrow>
                 (case calculate_gender_balance_score_st grp s1 of
                    (balance, s2) \<Rightarrow> (t + repeats + balance * 2, s2)))
          groups (0, s)"

function genetic_loop_st ::
    "shuffler \<Rightarrow> nat \<Rightarrow> nat \<Rightarrow> nat \<Rightarrow> Person list list option \<times> best_score
      \<Rightarrow> SocialGroupingProgram
      \<Rightarrow> ((Person list list option \<times> best_score) \<times> nat) \<times> SocialGroupingProgram" where
  "genetic_loop_st sh pos n iteration (best_groups, best) s =
     (if iteration < n then
        (let shuffled_people = sh (pos + iteration) (people s);
             groups = make_groups s shuffled_people;
             scored = total_score_st groups s;
             total = fst scored;
             s' = snd scored
         in if score_less total best then
              (if total = 0 then (((Some groups, Score total), Suc iteration), s')
               else genetic_loop_st sh pos n (Suc iteration) (Some groups, Score total) s')
            else genetic_loop_st sh pos n (Suc iteration) (best_groups, best) s')
      else (((best_groups, best), iteration), s))"
  by pat_completeness auto
termination
  by (relation "measure (\<lambda>(sh, pos, n, iteration, st, s). n - iteration)") auto

definition generate_groups_genetic_st ::
    "shuffler \<Rightarrow> int \<Rightarrow> SocialGroupingProgram \<times> nat
      \<Rightarrow> Person list list option \<times> (SocialGroupingProgram \<times> nat)" where
  "generate_groups_genetic_st sh max_iterations w =
     (case w of (s, pos) \<Rightarrow>
        (case genetic_loop_st sh pos (nat max_iterations) 0 (None, Infinity) s of
           (((best_groups, best), iterations), s') \<Rightarrow> (best_groups, (s', pos + iterations))))"

definition print_groups_st ::
    "Person list list \<Rightarrow> int \<Rightarrow> SocialGroupingProgram
      \<Rightarrow> (int \<times> int) \<times> SocialGroupingProgram" where
  "print_groups_st groups round_num s =
     (case fold (\<lambda>grp (t, s).
                   case calculate_group_score_st grp s of (repeats, s') \<Rightarrow> (t + repeats, s'))
                groups (0, s) of
        (total_previous_meetings, s') \<Rightarrow>
          ((total_previous_meetings,
            int (length groups) * (group_size s' * (group_size s' - 1) div 2)
              - total_previous_meetings), s'))"

definition create_new_round_st ::
    "shuffler \<Rightarrow> SocialGroupingProgram \<times> nat
      \<Rightarrow> (py_error + Person list list) \<times> (SocialGroupingProgram \<times> nat)" where
  "create_new_round_st sh w =
     (case w of (s, pos) \<Rightarrow>
        (let s1 = s\<lparr>current_round := current_round s + 1\<rparr>
         in case generate_groups_genetic_st sh 1000 (s1, pos) of
              (None, (s2, pos')) \<Rightarrow> (Inl TypeError, (s2, pos'))
            | (Some groups, (s2, pos')) \<Rightarrow>
                (case print_groups_st groups (current_round s2) s2 of
                   (printed, s3) \<Rightarrow>
                     (let s4 = add_meetings s3 groups;
                          s5 = s4\<lparr>round_history := round_history s4 @ [groups]\<rparr>
                      in (Inr groups, (s5, pos'))))))"

definition show_statistics_st ::
    "SocialGroupingProgram \<Rightarrow> (py_error + statistics) \<times> SocialGroupingProgram" where
  "show_statistics_st s =
     (let n = int (length (people s));
          possible = n * (n - 1) div 2
      in if possible = 0 then (Inl ZeroDivisionError, s)
         else if current_round s > 0 then
           (let per_round = num_groups s * (group_size s * (group_size s - 1) div 2)
            in if per_round = 0 then (Inl ZeroDivisionError, s)
               else
                 (let theoretical_max = possible div per_round
                  in (Inr \<lparr>recorded_meetings = fcard (previous_meetings s),
                           possible_meetings = possible,
                           round_estimate =
                             Some (theoretical_max, max 0 (theoretical_max - current_round s))\<rparr>,
                      s)))
         else (Inr \<lparr>recorded_meetings = fcard (previous_meetings s),
                    possible_meetings = possible, round_estimate = None\<rparr>, s))"

definition save_history_st :: "SocialGroupingProgram \<Rightarrow> history_data \<times> SocialGroupingProgram" where
  "save_history_st s =
     (\<lparr>export_total_people = int (length (people s)),
       export_group_size = group_size s,
       export_rounds =
         map (\<lambda>(round_num, groups). (int round_num, map (map nickname) groups))
             (zip [1 ..< Suc (length (round_history s))] (round_history s))\<rparr>, s)"

text \<open>
  One turn of the command loop of \<open>main\<close>, on the command as typed (stripped and in
  lower case). An exception is caught and printed, and the loop goes on with the
  session as it is.
\<close>

datatype report =
    Report_statistics statistics
  | Report_export history_data
  | Report_error py_error
  | Report_bye
  | Report_unknown

definition report_statistics ::
    "SocialGroupingProgram \<Rightarrow> report \<times> SocialGroupingProgram" where
  "report_statistics s =
     (case show_statistics_st s of
        (Inl e, s') \<Rightarrow> (Report_error e, s')
      | (Inr st, s') \<Rightarrow> (Report_statistics st, s'))"

definition run_command ::
    "shuffler \<Rightarrow> string \<Rightarrow> SocialGroupingProgram \<times> nat
      \<Rightarrow> report \<times> (SocialGroupingProgram \<times> nat)" where
  "run_command sh command w =
     (if command \<in> {''go'', ''g''} then
        (case create_new_round_st sh w of
           (Inl e, w') \<Rightarrow> (Report_error e, w')
         | (Inr groups, (s', pos')) \<Rightarrow>
             (case report_statistics s' of (rep, s'') \<Rightarrow> (rep, (s'', pos'))))
      else if command \<in> {''stat'', ''s''} then
        (case w of (s, pos) \<Rightarrow>
           (case report_statistics s of (rep, s') \<Rightarrow> (rep, (s', pos))))
      else if command = ''save'' then
        (case w of (s, pos) \<Rightarrow>
           (case save_history_st s of (data, s') \<Rightarrow> (Report_export data, (s', pos))))
      else if command \<in> {''quit'', ''q''} then (Report_bye, w)
      else (Report_unknown, w))"

section \<open>Notions of the specification\<close>

text \<open>
  The canonical pair keys occurring in a group, and in the groups of a round: one key
  for every two positions \<open>i < j\<close> of a group.
\<close>

definition group_pair_keys :: "Person list \<Rightarrow> pair_key fset" where
  "group_pair_keys grp =
     fset_of_list [sorted_key (nickname (grp ! i)) (nickname (grp ! j)).
                   i \<leftarrow> [0 ..< length grp], j \<leftarrow> [i + 1 ..< length grp]]"

definition round_pair_keys :: "Person list list \<Rightarrow> pair_key fset" where
  "round_pair_keys groups = ffUnion (fset_of_list (map group_pair_keys groups))"

text \<open>
  A ledger holds canonical pair keys: the smaller identity comes first.
\<close>

definition canonical_ledger :: "pair_key fset \<Rightarrow> bool" where
  "canonical_ledger L = fBall L (\<lambda>(a, b). a \<le> b)"

text \<open>The number of participants of a group in the first and in the second category.\<close>

definition count_category_A :: "Person list \<Rightarrow> int" where
  "count_category_A grp = int (length (filter (\<lambda>p. gender p = male_label) grp))"

definition count_category_B :: "Person list \<Rightarrow> int" where
  "count_category_B grp = int (length (filter (\<lambda>p. gender p \<noteq> male_label) grp))"

text \<open>
  The candidate partition that the search builds from call number \<open>c\<close> of the
  shuffle, and its cost.
\<close>

definition candidate :: "SocialGroupingProgram \<Rightarrow> shuffler \<Rightarrow> nat \<Rightarrow> Person list list" where
  "candidate s sh c = make_groups s (sh c (people s))"

definition candidate_cost :: "SocialGroupingProgram \<Rightarrow> shuffler \<Rightarrow> nat \<Rightarrow> int" where
  "candidate_cost s sh c = total_score s (candidate s sh c)"

text \<open>
  Best-so-far retention after \<open>c\<close> iterations of a search that started at call
  \<open>pos\<close>: nothing is held before the first iteration, and afterwards the held
  partition is one of the candidates seen, with its cost, and no candidate seen is
  cheaper.
\<close>

definition best_of_sampled ::
    "SocialGroupingProgram \<Rightarrow> shuffler \<Rightarrow> nat \<Rightarrow> nat
      \<Rightarrow> Person list list option \<times> best_score \<Rightarrow> bool" where
  "best_of_sampled s sh pos c st =
     (case fst st of
        None \<Rightarrow> c = 0 \<and> snd st = Infinity
      | Some g \<Rightarrow>
          (\<exists>j < c. g = candidate s sh (pos + j)
             \<and> snd st = Score (candidate_cost s sh (pos + j))
             \<and> (\<forall>i < c. candidate_cost s sh (pos + j) \<le> candidate_cost s sh (pos + i))))"

text \<open>
  The structural invariants of a partition of a population into groups of \<open>k\<close>:
  every group has \<open>k\<close> members, no participant occurs twice, and every participant
  occurs. Participants are identified by nickname, as \<open>Person.__eq__\<close> does.
\<close>

definition structurally_valid :: "Person list \<Rightarrow> int \<Rightarrow> Person list list \<Rightarrow> bool" where
  "structurally_valid population k groups =
     (list_all (\<lambda>grp. int (length grp) = k) groups
      \<and> distinct (map nickname (concat groups))
      \<and> set (map nickname (concat groups)) = set (map nickname population))"

text \<open>
  Two possible behaviours of the generator, for the examples: one whose shuffles all
  leave the list as it is, and one whose first shuffle does so and whose later
  shuffles move the first element to the end.
\<close>

definition shuffle_identity :: shuffler where
  "shuffle_identity c xs = xs"

definition shuffle_rotate_later :: shuffler where
  "shuffle_rotate_later c xs = (if c = 0 then xs else rotate1 xs)"

section \<open>Construction\<close>

lemma pairs_of_group_size_pos:
  fixes k :: int
  assumes "2 \<le> k"
  shows "1 \<le> k * (k - 1) div 2"
proof -
  have "2 * 1 \<le> k * (k - 1)"
    using assms by (intro mult_mono) auto
  then show ?thesis by simp
qed

lemma int_div_less:
  fixes x b y :: int
  assumes "0 < b" and "x < y * b"
  shows "x div b < y"
proof -
  have "b * (x div b) \<le> x"
    using assms(1) by (simp add: mult.commute minus_mod_eq_mult_div [symmetric])
  with assms(2) have "b * (x div b) < b * y"
    by (simp add: mult.commute)
  with assms(1) show ?thesis
    by simp
qed

lemma int_le_div:
  fixes x b y :: int
  assumes "0 < b" and "b * y \<le> x"
  shows "y \<le> x div b"
proof -
  have "(b * y) div b \<le> x div b"
    using assms(2) assms(1) by (rule zdiv_mono1)
  with assms(1) show ?thesis
    by simp
qed

lemma pow2_le_real:
  assumes "0 < b"
  shows "pow2_le n a b \<longleftrightarrow> 2 powi n \<le> real_of_int a / real_of_int b"
proof (cases "0 \<le> n")
  case True
  have "b * 2 ^ nat n \<le> a \<longleftrightarrow> real_of_int (b * 2 ^ nat n) \<le> real_of_int a"
    by (simp only: of_int_le_iff)
  also have "\<dots> \<longleftrightarrow> 2 ^ nat n \<le> real_of_int a / real_of_int b"
    using assms by (simp add: pos_le_divide_eq mult.commute)
  finally show ?thesis
    using True by (simp add: pow2_le_def power_int_def)
next
  case False
  have "b \<le> a * 2 ^ nat (- n) \<longleftrightarrow> real_of_int b \<le> real_of_int (a * 2 ^ nat (- n))"
    by (simp only: of_int_le_iff)
  also have "\<dots> \<longleftrightarrow> inverse (2 ^ nat (- n)) \<le> real_of_int a / real_of_int b"
    using assms by (simp add: field_simps)
  finally show ?thesis
    using False by (simp add: pow2_le_def power_int_def inverse_eq_divide power_one_over)
qed

lemma pow2_le_antimono:
  assumes "0 < b" and "n \<le> n'" and "pow2_le n' a b"
  shows "pow2_le n a b"
proof -
  have "(2::real) powi n \<le> 2 powi n'"
    using assms(2) by (intro power_int_increasing) simp_all
  with assms show ?thesis
    by (simp add: pow2_le_real)
qed

lemma floor_log2_bounds:
  assumes a: "0 < a" and b: "0 < b"
  shows "pow2_le (floor_log2 a b) a b" and "\<not> pow2_le (floor_log2 a b + 1) a b"
proof -
  let ?la = "bitlen a" and ?lb = "bitlen b"
  let ?q = "real_of_int a / real_of_int b"
  have la: "1 \<le> ?la" and lb: "1 \<le> ?lb"
    using a b by (simp_all add: bitlen_alt_def)
  have "(2::real) powi (?la - 1) = 2 ^ nat (?la - 1)" "(2::real) powi ?la = 2 ^ nat ?la"
    "(2::real) powi (?lb - 1) = 2 ^ nat (?lb - 1)" "(2::real) powi ?lb = 2 ^ nat ?lb"
    using la lb by (simp_all add: power_int_def)
  moreover have "real_of_int (2 ^ nat (?la - 1)) \<le> real_of_int a"
    "real_of_int a < real_of_int (2 ^ nat ?la)"
    "real_of_int (2 ^ nat (?lb - 1)) \<le> real_of_int b"
    "real_of_int b < real_of_int (2 ^ nat ?lb)"
    using bitlen_bounds [OF a] bitlen_bounds [OF b] by (simp_all only: of_int_le_iff of_int_less_iff)
  ultimately have a1: "2 powi (?la - 1) \<le> real_of_int a" and a2: "real_of_int a < 2 powi ?la"
    and b1: "2 powi (?lb - 1) \<le> real_of_int b" and b2: "real_of_int b < 2 powi ?lb"
    by simp_all
  have rb: "0 < real_of_int b" and ra: "0 < real_of_int a"
    using a b by simp_all
  have "2 powi (?la - ?lb - 1) = 2 powi (?la - 1) / (2::real) powi ?lb"
    by (simp add: power_int_diff)
  also have "\<dots> \<le> real_of_int a / 2 powi ?lb"
    using a1 by (simp add: divide_right_mono)
  also have "\<dots> \<le> ?q"
    using b2 ra rb by (intro divide_left_mono) simp_all
  finally have low: "pow2_le (?la - ?lb - 1) a b"
    using b by (simp add: pow2_le_real)
  have "?q \<le> real_of_int a / 2 powi (?lb - 1)"
    using b1 ra rb by (intro divide_left_mono) simp_all
  also have "\<dots> < 2 powi ?la / 2 powi (?lb - 1)"
    using a2 by (intro divide_strict_right_mono) simp_all
  also have "\<dots> = 2 powi (?la - (?lb - 1))"
    by (subst power_int_diff) simp_all
  also have "?la - (?lb - 1) = ?la - ?lb + 1"
    by simp
  finally have high: "\<not> pow2_le (?la - ?lb + 1) a b"
    using b by (simp add: pow2_le_real)
  show "pow2_le (floor_log2 a b) a b"
    using low by (simp add: floor_log2_def Let_def)
  show "\<not> pow2_le (floor_log2 a b + 1) a b"
    using high by (simp add: floor_log2_def Let_def)
qed

lemma round_half_even_bounds:
  assumes "0 < d"
  shows "n div d \<le> round_half_even n d" and "round_half_even n d \<le> n div d + 1"
    and "round_half_even n d \<noteq> n div d \<Longrightarrow> d \<le> 2 * (n mod d)"
  by (simp_all add: round_half_even_def Let_def split: if_splits)

text \<open>
  The quotient of two positive integers whose value is \<open>n / c\<close> with \<open>n < 2^53\<close>:
  rounding to a double does not carry it across an integer.
\<close>

lemma true_divide_floor:
  fixes a b c n :: int
  assumes b: "0 < b" and ab: "b \<le> a" and c: "0 < c"
    and ratio: "a * c = b * n" and n: "n < 2 ^ 53"
  shows "\<exists>r. true_divide a b = Inr r \<and> py_int r = a div b"
proof -
  from b ab have a: "0 < a" by simp
  define fl where "fl = floor_log2 a b"
  have fl_low: "pow2_le fl a b" and fl_high: "\<not> pow2_le (fl + 1) a b"
    unfolding fl_def using a b by (rule floor_log2_bounds)+
  have one: "pow2_le 0 a b"
    using ab by (simp add: pow2_le_def)
  have fl0: "0 \<le> fl"
  proof (rule ccontr)
    assume "\<not> 0 \<le> fl"
    then have "fl + 1 \<le> 0" by simp
    with b one have "pow2_le (fl + 1) a b"
      by (intro pow2_le_antimono [of b "fl + 1" 0 a]) simp_all
    with fl_high show False ..
  qed
  have "a * 1 \<le> a * c"
    using a c by (intro mult_left_mono) simp_all
  with ratio have a_le: "a \<le> b * n"
    by simp
  also have "b * n < b * 2 ^ 53"
    using b n by simp
  finally have "\<not> pow2_le 53 a b"
    by (simp add: pow2_le_def)
  have fl52: "fl \<le> 52"
  proof (rule ccontr)
    assume "\<not> fl \<le> 52"
    then have "53 \<le> fl" by simp
    with b fl_low have "pow2_le 53 a b"
      by (intro pow2_le_antimono [of b 53 fl a]) simp_all
    with \<open>\<not> pow2_le 53 a b\<close> show False ..
  qed
  define s :: int where "s = 2 ^ nat (52 - fl)"
  have s: "0 < s"
    by (simp add: s_def)
  from fl_low fl0 have low: "b * 2 ^ nat fl \<le> a"
    by (simp add: pow2_le_def)
  have "s * 2 ^ nat fl = (2::int) ^ (nat (52 - fl) + nat fl)"
    by (simp add: s_def power_add)
  also have "nat (52 - fl) + nat fl = 52"
    using fl0 fl52 by simp
  finally have s_fl: "s * 2 ^ nat fl = 2 ^ 52" .
  have "b * 2 ^ 52 = s * (b * 2 ^ nat fl)"
    using s_fl by (simp add: mult.assoc mult.left_commute)
  also have "\<dots> \<le> s * a"
    using low s by (intro mult_left_mono) simp_all
  finally have sa: "b * 2 ^ 52 \<le> s * a" .
  define M where "M = round_half_even (a * s) b"
  define m0 where "m0 = a div b"
  have m0_low: "b * m0 \<le> a" and m0_high: "a < b * (m0 + 1)"
  proof -
    have "a = b * m0 + a mod b"
      by (simp add: m0_def)
    moreover have "0 \<le> a mod b" and "a mod b < b"
      using b by simp_all
    ultimately show "b * m0 \<le> a" and "a < b * (m0 + 1)"
      by (simp_all add: algebra_simps)
  qed
  have m0_nonneg: "0 \<le> m0"
    using a b by (simp add: m0_def pos_imp_zdiv_nonneg_iff)
  have "b * (m0 * s) = s * (b * m0)"
    by (simp add: algebra_simps)
  also have "\<dots> \<le> s * a"
    using m0_low s by (intro mult_left_mono) simp_all
  finally have "b * (m0 * s) \<le> a * s"
    by (simp add: mult.commute)
  with b have "m0 * s \<le> (a * s) div b"
    by (rule int_le_div)
  also have "\<dots> \<le> M"
    unfolding M_def using b by (rule round_half_even_bounds)
  finally have M_low: "m0 * s \<le> M" .
  have M_high: "M < (m0 + 1) * s"
  proof (rule ccontr)
    assume "\<not> M < (m0 + 1) * s"
    then have contra: "(m0 + 1) * s \<le> M" by simp
    have "a * s < (b * (m0 + 1)) * s"
      using m0_high s by simp
    then have "a * s < ((m0 + 1) * s) * b"
      by (simp add: algebra_simps)
    with b have q_lt: "(a * s) div b < (m0 + 1) * s"
      by (rule int_div_less)
    have M_le: "M \<le> (a * s) div b + 1"
      unfolding M_def using b by (rule round_half_even_bounds)
    from contra q_lt M_le have q: "(a * s) div b = (m0 + 1) * s - 1" and "M \<noteq> (a * s) div b"
      by simp_all
    then have "b \<le> 2 * ((a * s) mod b)"
      unfolding M_def using b round_half_even_bounds(3) by blast
    also have "(a * s) mod b = a * s - b * ((m0 + 1) * s - 1)"
      using q by (metis minus_mult_div_eq_mod)
    finally have star: "2 * s * (b * (m0 + 1) - a) \<le> b"
      by (simp add: algebra_simps)
    define D where "D = b * (m0 + 1) - a"
    have D: "0 < D"
      using m0_high by (simp add: D_def)
    have Dc: "D * c = b * ((m0 + 1) * c - n)"
      using ratio by (simp add: D_def algebra_simps)
    from D c have "0 < D * c" by simp
    with Dc b have "0 < (m0 + 1) * c - n"
      by (simp add: zero_less_mult_iff)
    then have "1 \<le> (m0 + 1) * c - n" by simp
    with b have "b * 1 \<le> b * ((m0 + 1) * c - n)"
      by (intro mult_left_mono) simp_all
    with Dc have b_le: "b \<le> D * c" by simp
    have "2 * s * b \<le> 2 * s * (D * c)"
      using b_le s by (intro mult_left_mono) simp_all
    also have "\<dots> = (2 * s * D) * c"
      by (simp add: algebra_simps)
    also have "\<dots> \<le> b * c"
      using star c unfolding D_def [symmetric] by (intro mult_right_mono) simp_all
    finally have "(2 * s) * b \<le> c * b"
      by (simp add: algebra_simps)
    with b have c_ge: "2 * s \<le> c"
      by simp
    have "a * c = b * n" by (rule ratio)
    also have "\<dots> < b * 2 ^ 53"
      using b n by simp
    also have "\<dots> = 2 * (b * 2 ^ 52)"
      by simp
    also have "\<dots> \<le> 2 * (s * a)"
      using sa by (simp add: ac_simps)
    finally have "a * c < a * (2 * s)"
      by (simp add: algebra_simps)
    with a have "c < 2 * s"
      by simp
    with c_ge show False by simp
  qed
  have rs: "0 < real_of_int s"
    using s by simp
  have r_nonneg: "0 \<le> real_of_int M / real_of_int s"
    using M_low m0_nonneg s by (simp add: zero_le_mult_iff order_trans [of 0 "m0 * s" M])
  have floorM: "\<lfloor>real_of_int M / real_of_int s\<rfloor> = m0"
  proof -
    have "\<lfloor>real_of_int M / real_of_int s\<rfloor> = M div s"
      by (rule floor_divide_of_int_eq)
    also have "M div s = m0"
    proof (rule int_div_pos_eq [of M s m0 "M - s * m0"])
      show "M = s * m0 + (M - s * m0)" by simp
      show "0 \<le> M - s * m0" using M_low by (simp add: mult.commute)
      show "M - s * m0 < s" using M_high by (simp add: algebra_simps)
    qed
    finally show ?thesis .
  qed
  have "real_of_int M < real_of_int ((m0 + 1) * s)"
    using M_high by (simp only: of_int_less_iff)
  then have "real_of_int M / real_of_int s < real_of_int (m0 + 1)"
    using rs by (simp add: pos_divide_less_eq)
  moreover have "m0 \<le> n"
  proof -
    have "b * m0 \<le> b * n"
      using m0_low a_le by simp
    with b show ?thesis by simp
  qed
  ultimately have "real_of_int M / real_of_int s < real_of_int (2 ^ 53)"
    using n by (smt (verit) of_int_less_iff)
  also have "real_of_int (2 ^ 53) \<le> 2 ^ 1024"
    by simp
  finally have no_overflow: "\<not> 2 ^ 1024 \<le> real_of_int M / real_of_int s"
    by simp
  have e: "max (floor_log2 \<bar>a\<bar> \<bar>b\<bar> - 52) (- 1074) = fl - 52"
    using a b fl0 by (simp add: fl_def)
  have "true_divide a b = Inr (real_of_int M / real_of_int s)"
  proof (cases "fl = 52")
    case True
    then have "s = 1"
      by (simp add: s_def)
    with True e a b no_overflow show ?thesis
      by (simp add: true_divide_def M_def Let_def)
  next
    case False
    with fl52 have "\<not> 0 \<le> fl - 52" and "nat (- (fl - 52)) = nat (52 - fl)"
      by simp_all
    with e a b no_overflow show ?thesis
      by (simp add: true_divide_def M_def s_def Let_def)
  qed
  moreover have "py_int (real_of_int M / real_of_int s) = m0"
    using r_nonneg floorM by (simp add: py_int_def)
  ultimately show ?thesis
    by (simp add: m0_def)
qed

text \<open>
  Claim C1, as the code has it. When the group size \<open>k\<close> is not zero and does not
  divide \<open>N\<close>, constructing the analyzer fails with \<open>ValueError\<close>. The session
  constructor has no such check: for a population of \<open>N\<close> people it returns a session
  with \<open>num_groups = N // k\<close>.
\<close>

theorem construction_divisibility:
  "k \<noteq> 0 \<Longrightarrow> N mod k \<noteq> 0 \<Longrightarrow>
     SocialGroupingAnalyzer_init N k = Inl ValueError
     \<and> (\<forall>ps. int (length ps) = N \<longrightarrow>
           SocialGroupingProgram_init ps k
             = Inr \<lparr>people = ps, group_size = k, num_groups = N div k,
                    previous_meetings = {||}, round_history = [], current_round = 0\<rparr>)"
  by (simp add: SocialGroupingAnalyzer_init_def SocialGroupingProgram_init_def)

text \<open>Three people in groups of two.\<close>

theorem construction_divisibility_witness:
  "(2::int) \<noteq> 0 \<and> (3::int) mod 2 \<noteq> 0
   \<and> SocialGroupingAnalyzer_init 3 2 = Inl ValueError
   \<and> SocialGroupingProgram_init
        [Person_init ''a'' male_label, Person_init ''b'' female_label,
         Person_init ''c'' male_label] 2
       = Inr \<lparr>people = [Person_init ''a'' male_label, Person_init ''b'' female_label,
                        Person_init ''c'' male_label],
              group_size = 2, num_groups = 1,
              previous_meetings = {||}, round_history = [], current_round = 0\<rparr>"
  using construction_divisibility [of 2 3] by simp

text \<open>
  Claim C1 as stated fails for the session: three people and a group size of two, and
  the session is constructed.
\<close>

theorem session_construction_counterexample:
  "int (length [Person_init ''a'' male_label, Person_init ''b'' female_label,
                Person_init ''c'' male_label]) mod 2 \<noteq> 0
   \<and> SocialGroupingProgram_init
        [Person_init ''a'' male_label, Person_init ''b'' female_label,
         Person_init ''c'' male_label] 2
       = Inr \<lparr>people = [Person_init ''a'' male_label, Person_init ''b'' female_label,
                        Person_init ''c'' male_label],
              group_size = 2, num_groups = 1,
              previous_meetings = {||}, round_history = [], current_round = 0\<rparr>"
  by (simp add: SocialGroupingProgram_init_def)

lemma analyzer_quotient:
  fixes N k :: int
  assumes N: "1 \<le> N" and k: "2 \<le> k" and dvd: "N mod k = 0"
  defines "tp \<equiv> N * (N - 1) div 2"
    and "ppr \<equiv> (N div k) * (k * (k - 1) div 2)"
  shows "0 < ppr" and "ppr \<le> tp" and "tp * (k - 1) = ppr * (N - 1)"
proof -
  have tp2: "2 * tp = N * (N - 1)"
    unfolding tp_def by simp
  define ppg where "ppg = k * (k - 1) div 2"
  have ppg2: "2 * ppg = k * (k - 1)"
    unfolding ppg_def by simp
  from dvd have "k dvd N"
    by (simp add: dvd_eq_mod_eq_0)
  then have Nk: "k * (N div k) = N"
    by simp
  have "2 * ppr = (N div k) * (2 * ppg)"
    by (simp add: ppr_def ppg_def)
  also have "\<dots> = (k * (N div k)) * (k - 1)"
    unfolding ppg2 by (simp add: mult.assoc mult.left_commute)
  finally have ppr2: "2 * ppr = N * (k - 1)"
    unfolding Nk .
  have "0 < N * (k - 1)"
    using N k by (intro mult_pos_pos) simp_all
  with ppr2 show ppr_pos: "0 < ppr"
    by linarith
  have "2 * (tp * (k - 1)) = (2 * tp) * (k - 1)"
    by simp
  also have "\<dots> = (N * (k - 1)) * (N - 1)"
    unfolding tp2 by (simp add: mult.assoc mult.left_commute mult.commute)
  also have "\<dots> = 2 * (ppr * (N - 1))"
    unfolding ppr2 [symmetric] by simp
  finally show ratio: "tp * (k - 1) = ppr * (N - 1)"
    by simp
  have "k \<le> N"
    using N k dvd by (metis mod_pos_pos_trivial not_le not_one_le_zero zero_le_one order_trans)
  then have "ppr * (k - 1) \<le> ppr * (N - 1)"
    using ppr_pos by (intro mult_left_mono) simp_all
  with ratio have "ppr * (k - 1) \<le> tp * (k - 1)"
    by simp
  with k show "ppr \<le> tp"
    by simp
qed

text \<open>
  Claim C5, for a population of at least one and at most \<open>2^53\<close> people. For
  \<open>1 \<le> N \<le> 2^53\<close>, \<open>k \<ge> 2\<close> and \<open>k\<close> dividing \<open>N\<close> the analyzer is constructed with
  \<open>num_groups = N / k\<close>, \<open>total_pairs = N (N - 1) / 2\<close>,
  \<open>pairs_per_group = k (k - 1) / 2\<close>, \<open>pairs_per_round = num_groups * pairs_per_group\<close>
  and \<open>max_practical_rounds\<close> the floor of \<open>total_pairs / pairs_per_round\<close>, the
  divisions being exact where the claim writes them so. For \<open>N = 50\<close>, \<open>k = 10\<close> the
  numbers are 5, 1225, 45, 225 and 5.
\<close>

theorem analyzer_limits:
  "(\<forall>N k. 1 \<le> N \<longrightarrow> N \<le> 2 ^ 53 \<longrightarrow> 2 \<le> k \<longrightarrow> N mod k = 0 \<longrightarrow>
      (\<exists>a. SocialGroupingAnalyzer_init N k = Inr a
         \<and> analyzer_num_groups a = N div k
         \<and> real_of_int (analyzer_num_groups a) = real_of_int N / real_of_int k
         \<and> real_of_int (total_pairs a) = real_of_int N * (real_of_int N - 1) / 2
         \<and> real_of_int (pairs_per_group a) = real_of_int k * (real_of_int k - 1) / 2
         \<and> pairs_per_round a = analyzer_num_groups a * pairs_per_group a
         \<and> max_practical_rounds a
             = \<lfloor>real_of_int (total_pairs a) / real_of_int (pairs_per_round a)\<rfloor>))
   \<and> SocialGroupingAnalyzer_init 50 10
       = Inr \<lparr>total_people = 50, analyzer_group_size = 10, analyzer_num_groups = 5,
              total_pairs = 1225, pairs_per_group = 45, pairs_per_round = 225,
              max_theoretical_rounds = 3064949746404921 / 562949953421312,
              max_practical_rounds = 5\<rparr>"
proof (intro conjI allI impI)
  fix N k :: int
  assume N: "1 \<le> N" and N53: "N \<le> 2 ^ 53" and k: "2 \<le> k" and dvd: "N mod k = 0"
  define tp where "tp = N * (N - 1) div 2"
  define ppg where "ppg = k * (k - 1) div 2"
  define ppr where "ppr = (N div k) * ppg"
  from analyzer_quotient [OF N k dvd]
  have ppr_pos: "0 < ppr" and le: "ppr \<le> tp" and ratio: "tp * (k - 1) = ppr * (N - 1)"
    by (simp_all add: tp_def ppr_def ppg_def)
  from N53 have "N - 1 < 2 ^ 53"
    by simp
  with true_divide_floor [OF ppr_pos le _ ratio] k
  obtain r where r: "true_divide tp ppr = Inr r" and floor_r: "py_int r = tp div ppr"
    by auto
  have ev_N: "even (N * (N - 1))" by simp
  have ev_k: "even (k * (k - 1))" by simp
  have tp_real: "real_of_int tp = real_of_int N * (real_of_int N - 1) / 2"
    unfolding tp_def using ev_N by (simp add: real_of_int_div)
  have ppg_real: "real_of_int ppg = real_of_int k * (real_of_int k - 1) / 2"
    unfolding ppg_def using ev_k by (simp add: real_of_int_div)
  have ng_real: "real_of_int (N div k) = real_of_int N / real_of_int k"
    using dvd by (simp add: real_of_int_div dvd_eq_mod_eq_0)
  have init: "SocialGroupingAnalyzer_init N k
    = Inr \<lparr>total_people = N, analyzer_group_size = k, analyzer_num_groups = N div k,
           total_pairs = tp, pairs_per_group = ppg, pairs_per_round = ppr,
           max_theoretical_rounds = r, max_practical_rounds = tp div ppr\<rparr>"
    using k dvd r floor_r
    by (simp add: SocialGroupingAnalyzer_init_def calculate_theoretical_limits_def Let_def
        tp_def [symmetric] ppg_def [symmetric] ppr_def [symmetric])
  show "\<exists>a. SocialGroupingAnalyzer_init N k = Inr a
         \<and> analyzer_num_groups a = N div k
         \<and> real_of_int (analyzer_num_groups a) = real_of_int N / real_of_int k
         \<and> real_of_int (total_pairs a) = real_of_int N * (real_of_int N - 1) / 2
         \<and> real_of_int (pairs_per_group a) = real_of_int k * (real_of_int k - 1) / 2
         \<and> pairs_per_round a = analyzer_num_groups a * pairs_per_group a
         \<and> max_practical_rounds a
             = \<lfloor>real_of_int (total_pairs a) / real_of_int (pairs_per_round a)\<rfloor>"
    unfolding init using tp_real ppg_real ng_real
    by (simp add: ppr_def floor_divide_of_int_eq)
next
  show "SocialGroupingAnalyzer_init 50 10
       = Inr \<lparr>total_people = 50, analyzer_group_size = 10, analyzer_num_groups = 5,
              total_pairs = 1225, pairs_per_group = 45, pairs_per_round = 225,
              max_theoretical_rounds = 3064949746404921 / 562949953421312,
              max_practical_rounds = 5\<rparr>"
    by code_simp
qed

text \<open>The second example of the specification, \<open>N = 6\<close> and \<open>k = 2\<close>.\<close>

theorem analyzer_limits_witness:
  "(1::int) \<le> 6 \<and> (6::int) \<le> 2 ^ 53 \<and> (2::int) \<le> 2 \<and> (6::int) mod 2 = 0
   \<and> (\<exists>a. SocialGroupingAnalyzer_init 6 2 = Inr a
         \<and> total_pairs a = 15 \<and> pairs_per_group a = 1 \<and> pairs_per_round a = 3
         \<and> max_practical_rounds a = 5)"
proof -
  from analyzer_limits [THEN conjunct1, rule_format, of 6 2]
  have "\<exists>a. SocialGroupingAnalyzer_init 6 2 = Inr a
         \<and> analyzer_num_groups a = 6 div 2
         \<and> real_of_int (analyzer_num_groups a) = real_of_int 6 / real_of_int 2
         \<and> real_of_int (total_pairs a) = real_of_int 6 * (real_of_int 6 - 1) / 2
         \<and> real_of_int (pairs_per_group a) = real_of_int 2 * (real_of_int 2 - 1) / 2
         \<and> pairs_per_round a = analyzer_num_groups a * pairs_per_group a
         \<and> max_practical_rounds a
             = \<lfloor>real_of_int (total_pairs a) / real_of_int (pairs_per_round a)\<rfloor>"
    by simp
  then obtain a where "SocialGroupingAnalyzer_init 6 2 = Inr a"
    and "analyzer_num_groups a = 3"
    and tp: "real_of_int (total_pairs a) = 15"
    and ppg: "real_of_int (pairs_per_group a) = 1"
    and "pairs_per_round a = analyzer_num_groups a * pairs_per_group a"
    and "max_practical_rounds a
             = \<lfloor>real_of_int (total_pairs a) / real_of_int (pairs_per_round a)\<rfloor>"
    by auto
  moreover from tp have "total_pairs a = 15" by linarith
  moreover from ppg have "pairs_per_group a = 1" by linarith
  ultimately show ?thesis by auto
qed

text \<open>
  Claim C5 as stated also covers \<open>N = 0\<close>, where \<open>pairs_per_round\<close> is zero and the
  division raises, and populations beyond \<open>2^53\<close>, where the double nearest to the
  quotient can be the next integer: for \<open>N = 12000000000000000\<close> and \<open>k = 3\<close> the
  quotient is \<open>5999999999999999.5\<close>, which rounds to \<open>6000000000000000\<close>.
\<close>

theorem analyzer_limits_counterexample:
  "SocialGroupingAnalyzer_init 0 2 = Inl ZeroDivisionError
   \<and> SocialGroupingAnalyzer_init 12000000000000000 3
       = Inr \<lparr>total_people = 12000000000000000, analyzer_group_size = 3,
              analyzer_num_groups = 4000000000000000,
              total_pairs = 71999999999999994000000000000000, pairs_per_group = 3,
              pairs_per_round = 12000000000000000,
              max_theoretical_rounds = 6000000000000000,
              max_practical_rounds = 6000000000000000\<rparr>
   \<and> \<lfloor>real_of_int 71999999999999994000000000000000 / real_of_int 12000000000000000\<rfloor>
       = (5999999999999999 :: int)"
proof (intro conjI)
  show "SocialGroupingAnalyzer_init 0 2 = Inl ZeroDivisionError"
    by (simp add: SocialGroupingAnalyzer_init_def calculate_theoretical_limits_def
        true_divide_def)
  show "SocialGroupingAnalyzer_init 12000000000000000 3
       = Inr \<lparr>total_people = 12000000000000000, analyzer_group_size = 3,
              analyzer_num_groups = 4000000000000000,
              total_pairs = 71999999999999994000000000000000, pairs_per_group = 3,
              pairs_per_round = 12000000000000000,
              max_theoretical_rounds = 6000000000000000,
              max_practical_rounds = 6000000000000000\<rparr>"
    by code_simp
  show "\<lfloor>real_of_int 71999999999999994000000000000000 / real_of_int 12000000000000000\<rfloor>
       = (5999999999999999 :: int)"
    by (simp add: floor_divide_of_int_eq)
qed

text \<open>
  Claim C7, for the group sizes 0 and 1. Constructing the analyzer fails with
  \<open>ZeroDivisionError\<close> for every \<open>N\<close>: at \<open>N % 0\<close> for \<open>k = 0\<close>, and at the
  division by \<open>pairs_per_round = 0\<close> for \<open>k = 1\<close>.
\<close>

theorem analyzer_small_group_size:
  "0 \<le> k \<Longrightarrow> k < 2 \<Longrightarrow> SocialGroupingAnalyzer_init N k = Inl ZeroDivisionError"
proof -
  assume "0 \<le> k" and "k < 2"
  then consider "k = 0" | "k = 1" by linarith
  then show ?thesis
    by cases (simp_all add: SocialGroupingAnalyzer_init_def calculate_theoretical_limits_def
        true_divide_def)
qed

text \<open>Seven people in groups of one.\<close>

theorem analyzer_small_group_size_witness:
  "(0::int) \<le> 1 \<and> (1::int) < 2 \<and> SocialGroupingAnalyzer_init 7 1 = Inl ZeroDivisionError"
  using analyzer_small_group_size [of 1 7] by simp

text \<open>
  Claim C7 as stated fails for a negative group size that divides \<open>N\<close>: no statement
  of the constructor rejects it, and an analyzer is produced. The quotient
  \<open>15 / -9\<close> is the double \<open>-1.6666666666666667\<close>.
\<close>

theorem analyzer_negative_group_size_counterexample:
  "(- 2 :: int) < 2
   \<and> SocialGroupingAnalyzer_init 6 (- 2)
       = Inr \<lparr>total_people = 6, analyzer_group_size = - 2, analyzer_num_groups = - 3,
              total_pairs = 15, pairs_per_group = 3, pairs_per_round = - 9,
              max_theoretical_rounds = - (7505999378950827 / 4503599627370496),
              max_practical_rounds = - 1\<rparr>"
proof
  show "(- 2 :: int) < 2"
    by simp
  show "SocialGroupingAnalyzer_init 6 (- 2)
       = Inr \<lparr>total_people = 6, analyzer_group_size = - 2, analyzer_num_groups = - 3,
              total_pairs = 15, pairs_per_group = 3, pairs_per_round = - 9,
              max_theoretical_rounds = - (7505999378950827 / 4503599627370496),
              max_practical_rounds = - 1\<rparr>"
    by code_simp
qed

section \<open>The meeting ledger\<close>

lemma record_pair_sorted_key: "record_pair a b L = finsert (sorted_key a b) L"
  by (auto simp: record_pair_def sorted_key_def)

lemma fold_record_pair:
  "key |\<in>| fold (\<lambda>j. record_pair a (f j)) js L \<longleftrightarrow>
     key |\<in>| L \<or> (\<exists>j \<in> set js. key = sorted_key a (f j))"
  by (induction js arbitrary: L) (auto simp: record_pair_sorted_key)

lemma fold_member:
  assumes "\<And>i L. key |\<in>| h i L \<longleftrightarrow> key |\<in>| L \<or> P i"
  shows "key |\<in>| fold h xs L \<longleftrightarrow> key |\<in>| L \<or> (\<exists>i \<in> set xs. P i)"
  by (induction xs arbitrary: L) (auto simp: assms)

lemma group_pair_keys_iff:
  "key |\<in>| group_pair_keys grp \<longleftrightarrow>
     (\<exists>i j. i < j \<and> j < length grp
        \<and> key = sorted_key (nickname (grp ! i)) (nickname (grp ! j)))"
proof
  assume "key |\<in>| group_pair_keys grp"
  then obtain i j where "i < length grp" and "Suc i \<le> j" and "j < length grp"
    and "key = sorted_key (nickname (grp ! i)) (nickname (grp ! j))"
    by (auto simp: group_pair_keys_def fset_of_list_elem)
  then show "\<exists>i j. i < j \<and> j < length grp
        \<and> key = sorted_key (nickname (grp ! i)) (nickname (grp ! j))"
    by (intro exI [of _ i] exI [of _ j]) simp
next
  assume "\<exists>i j. i < j \<and> j < length grp
        \<and> key = sorted_key (nickname (grp ! i)) (nickname (grp ! j))"
  then obtain i j where "i < j" and "j < length grp"
    and key: "key = sorted_key (nickname (grp ! i)) (nickname (grp ! j))"
    by blast
  then have "i \<in> {0 ..< length grp}" and "j \<in> {Suc i ..< length grp}"
    by simp_all
  then have "\<exists>i \<in> {0 ..< length grp}. \<exists>j \<in> {Suc i ..< length grp}.
      key = sorted_key (nickname (grp ! i)) (nickname (grp ! j))"
    using key by blast
  then show "key |\<in>| group_pair_keys grp"
    by (simp add: group_pair_keys_def fset_of_list_elem image_iff)
qed

lemma round_pair_keys_Nil: "round_pair_keys [] = {||}"
  by (simp add: round_pair_keys_def)

lemma round_pair_keys_Cons:
  "round_pair_keys (grp # groups) = group_pair_keys grp |\<union>| round_pair_keys groups"
  by (simp add: round_pair_keys_def)

lemma round_pair_keys_iff:
  "key |\<in>| round_pair_keys groups \<longleftrightarrow> (\<exists>grp \<in> set groups. key |\<in>| group_pair_keys grp)"
  by (induction groups) (simp_all add: round_pair_keys_Nil round_pair_keys_Cons)

lemma add_meetings_group_iff:
  "key |\<in>| add_meetings_group grp L \<longleftrightarrow> key |\<in>| L \<or> key |\<in>| group_pair_keys grp"
proof -
  have "key |\<in>| add_meetings_group grp L \<longleftrightarrow>
      key |\<in>| L \<or> (\<exists>i \<in> set [0 ..< length grp]. \<exists>j \<in> set [i + 1 ..< length grp].
         key = sorted_key (nickname (grp ! i)) (nickname (grp ! j)))"
    unfolding add_meetings_group_def
    by (rule fold_member) (rule fold_record_pair)
  also have "(\<exists>i \<in> set [0 ..< length grp]. \<exists>j \<in> set [i + 1 ..< length grp].
         key = sorted_key (nickname (grp ! i)) (nickname (grp ! j)))
      \<longleftrightarrow> key |\<in>| group_pair_keys grp"
    by (simp add: group_pair_keys_def fset_of_list_elem image_iff)
  finally show ?thesis .
qed

lemma fold_add_meetings_group:
  "fold add_meetings_group groups L = L |\<union>| round_pair_keys groups"
proof (rule fset_eqI)
  fix key
  have "key |\<in>| fold add_meetings_group groups L \<longleftrightarrow>
      key |\<in>| L \<or> (\<exists>grp \<in> set groups. key |\<in>| group_pair_keys grp)"
    by (rule fold_member) (rule add_meetings_group_iff)
  then show "key |\<in>| fold add_meetings_group groups L \<longleftrightarrow>
      key |\<in>| L |\<union>| round_pair_keys groups"
    by (simp add: round_pair_keys_iff)
qed

lemma previous_meetings_add_meetings:
  "previous_meetings (add_meetings s groups) = previous_meetings s |\<union>| round_pair_keys groups"
  by (simp add: add_meetings_def fold_add_meetings_group)

lemma fcard_add_meetings_rounds:
  "fcard (previous_meetings s)
     \<le> fcard (previous_meetings (fold (\<lambda>groups s. add_meetings s groups) rounds s))"
proof (induction rounds arbitrary: s)
  case Nil
  show ?case by simp
next
  case (Cons groups rounds)
  have "fcard (previous_meetings s) \<le> fcard (previous_meetings (add_meetings s groups))"
    by (simp add: previous_meetings_add_meetings fcard_mono)
  also have "\<dots> \<le> fcard (previous_meetings
      (fold (\<lambda>groups s. add_meetings s groups) rounds (add_meetings s groups)))"
    by (rule Cons.IH)
  finally show ?case by simp
qed

text \<open>
  Claim C4. Committing the groups of a round leaves the ledger as it was, joined with
  the canonical pair keys that occur in the groups; so the entries it adds are exactly
  those keys that were absent before, and the size grows by their number. Recording
  the same groups a second time changes nothing, and over any sequence of committed
  rounds the size of the ledger does not decrease.
\<close>

theorem add_meetings_ledger:
  "previous_meetings (add_meetings s groups) = previous_meetings s |\<union>| round_pair_keys groups
   \<and> previous_meetings (add_meetings s groups) |-| previous_meetings s
       = round_pair_keys groups |-| previous_meetings s
   \<and> fcard (previous_meetings (add_meetings s groups))
       = fcard (previous_meetings s) + fcard (round_pair_keys groups |-| previous_meetings s)
   \<and> add_meetings (add_meetings s groups) groups = add_meetings s groups
   \<and> fcard (previous_meetings s)
       \<le> fcard (previous_meetings (fold (\<lambda>groups s. add_meetings s groups) rounds s))"
proof (intro conjI)
  let ?L = "previous_meetings s" and ?K = "round_pair_keys groups"
  show eq: "previous_meetings (add_meetings s groups) = ?L |\<union>| ?K"
    by (rule previous_meetings_add_meetings)
  show "previous_meetings (add_meetings s groups) |-| ?L = ?K |-| ?L"
    unfolding eq by auto
  have "?L |\<union>| ?K = ?L |\<union>| (?K |-| ?L)" by auto
  moreover have "?L |\<inter>| (?K |-| ?L) = {||}" by auto
  ultimately show "fcard (previous_meetings (add_meetings s groups))
       = fcard ?L + fcard (?K |-| ?L)"
    unfolding eq by (metis fcard_funion_disjoint)
  show "add_meetings (add_meetings s groups) groups = add_meetings s groups"
    by (simp add: add_meetings_def fold_add_meetings_group) 
  show "fcard ?L \<le> fcard (previous_meetings (fold (\<lambda>groups s. add_meetings s groups) rounds s))"
    by (rule fcard_add_meetings_rounds)
qed

section \<open>The cost model\<close>

lemma fold_add_sum_list:
  fixes a :: int
  shows "fold (\<lambda>x acc. acc + f x) xs a = a + sum_list (map f xs)"
  by (induction xs arbitrary: a) simp_all

lemma male_count_eq:
  "sum_list [1. p \<leftarrow> grp, gender p = male_label] = count_category_A grp"
  by (induction grp) (simp_all add: count_category_A_def)

lemma count_categories: "count_category_A grp + count_category_B grp = int (length grp)"
  by (induction grp) (simp_all add: count_category_A_def count_category_B_def)

lemma get_meeting_count_nonneg: "0 \<le> get_meeting_count s p q"
  by (simp add: get_meeting_count_def)

lemma get_meeting_count_zero_iff:
  "get_meeting_count s p q = 0 \<longleftrightarrow> sorted_key (nickname p) (nickname q) |\<notin>| previous_meetings s"
  by (simp add: get_meeting_count_def)

lemma calculate_group_score_sum:
  "calculate_group_score s grp =
     sum_list (map (\<lambda>i. sum_list (map (\<lambda>j. get_meeting_count s (grp ! i) (grp ! j))
                                      [i + 1 ..< length grp]))
                   [0 ..< length grp])"
  unfolding calculate_group_score_def
  by (simp add: fold_add_sum_list [abs_def])

lemma calculate_group_score_nonneg: "0 \<le> calculate_group_score s grp"
  unfolding calculate_group_score_sum
  by (intro sum_list_nonneg) (auto intro!: sum_list_nonneg simp: get_meeting_count_nonneg)

lemma calculate_group_score_zero_iff:
  "calculate_group_score s grp = 0 \<longleftrightarrow>
     (\<forall>i j. i < j \<and> j < length grp \<longrightarrow>
        sorted_key (nickname (grp ! i)) (nickname (grp ! j)) |\<notin>| previous_meetings s)"
proof -
  let ?inner = "\<lambda>i. sum_list (map (\<lambda>j. get_meeting_count s (grp ! i) (grp ! j))
                                   [i + 1 ..< length grp])"
  have inner_nonneg: "0 \<le> ?inner i" for i
    by (intro sum_list_nonneg) (auto simp: get_meeting_count_nonneg)
  have inner_zero: "?inner i = 0 \<longleftrightarrow>
      (\<forall>j. i < j \<and> j < length grp \<longrightarrow> get_meeting_count s (grp ! i) (grp ! j) = 0)" for i
  proof -
    have "?inner i = 0 \<longleftrightarrow>
        (\<forall>x \<in> set (map (\<lambda>j. get_meeting_count s (grp ! i) (grp ! j)) [i + 1 ..< length grp]).
           x = 0)"
      by (intro sum_list_nonneg_eq_0_iff) (auto simp: get_meeting_count_nonneg)
    also have "\<dots> \<longleftrightarrow>
        (\<forall>j. i < j \<and> j < length grp \<longrightarrow> get_meeting_count s (grp ! i) (grp ! j) = 0)"
      by (auto simp: Suc_le_eq)
    finally show ?thesis .
  qed
  have "calculate_group_score s grp = 0 \<longleftrightarrow>
      (\<forall>x \<in> set (map ?inner [0 ..< length grp]). x = 0)"
    unfolding calculate_group_score_sum
    using inner_nonneg by (intro sum_list_nonneg_eq_0_iff) auto
  also have "\<dots> \<longleftrightarrow> (\<forall>i < length grp. ?inner i = 0)"
    by auto
  also have "\<dots> \<longleftrightarrow>
      (\<forall>i j. i < j \<and> j < length grp \<longrightarrow> get_meeting_count s (grp ! i) (grp ! j) = 0)"
    unfolding inner_zero by (meson less_trans)
  finally show ?thesis
    by (simp add: get_meeting_count_zero_iff)
qed

lemma calculate_gender_balance_score_eq:
  "calculate_gender_balance_score s grp =
     \<bar>count_category_A grp - group_size s div 2\<bar>
       + \<bar>count_category_B grp - (group_size s - group_size s div 2)\<bar>"
  using count_categories [of grp]
  by (simp add: calculate_gender_balance_score_def male_count_eq Let_def)

lemma calculate_gender_balance_score_nonneg: "0 \<le> calculate_gender_balance_score s grp"
  by (simp add: calculate_gender_balance_score_eq)

lemma calculate_gender_balance_score_zero_iff:
  "calculate_gender_balance_score s grp = 0 \<longleftrightarrow>
     count_category_A grp = group_size s div 2
     \<and> count_category_B grp = group_size s - group_size s div 2"
  unfolding calculate_gender_balance_score_eq by linarith

lemma total_score_sum:
  "total_score s groups =
     sum_list (map (\<lambda>grp. calculate_group_score s grp
                            + calculate_gender_balance_score s grp * 2) groups)"
proof -
  have "fold (\<lambda>grp t. t + calculate_group_score s grp
                        + calculate_gender_balance_score s grp * 2) groups a
      = a + sum_list (map (\<lambda>grp. calculate_group_score s grp
                            + calculate_gender_balance_score s grp * 2) groups)" for a
    by (induction groups arbitrary: a) simp_all
  then show ?thesis
    by (simp add: total_score_def)
qed

lemma total_score_nonneg: "0 \<le> total_score s groups"
  unfolding total_score_sum
  by (intro sum_list_nonneg)
     (auto simp: calculate_group_score_nonneg calculate_gender_balance_score_nonneg)

lemma total_score_zero_iff_key:
  "total_score s groups = 0 \<longleftrightarrow>
     (\<forall>grp \<in> set groups.
        (\<forall>i j. i < j \<and> j < length grp \<longrightarrow>
           sorted_key (nickname (grp ! i)) (nickname (grp ! j)) |\<notin>| previous_meetings s)
        \<and> count_category_A grp = group_size s div 2
        \<and> count_category_B grp = group_size s - group_size s div 2)"
proof -
  let ?cost = "\<lambda>grp. calculate_group_score s grp + calculate_gender_balance_score s grp * 2"
  have cost_nonneg: "0 \<le> ?cost grp" for grp
    using calculate_group_score_nonneg [of s grp] calculate_gender_balance_score_nonneg [of s grp]
    by simp
  have cost_zero: "?cost grp = 0 \<longleftrightarrow>
      calculate_group_score s grp = 0 \<and> calculate_gender_balance_score s grp = 0" for grp
    using calculate_group_score_nonneg [of s grp] calculate_gender_balance_score_nonneg [of s grp]
    by linarith
  have "total_score s groups = 0 \<longleftrightarrow> (\<forall>x \<in> set (map ?cost groups). x = 0)"
    unfolding total_score_sum
    by (intro sum_list_nonneg_eq_0_iff) (auto simp: cost_nonneg)
  also have "\<dots> \<longleftrightarrow> (\<forall>grp \<in> set groups. ?cost grp = 0)"
    by simp
  finally show ?thesis
    unfolding cost_zero calculate_group_score_zero_iff calculate_gender_balance_score_zero_iff .
qed

text \<open>
  The ledger of a new session is canonical, and committing a round keeps it so:
  every ledger that the session builds is canonical.
\<close>

lemma canonical_ledger_empty: "canonical_ledger {||}"
  by (simp add: canonical_ledger_def)

lemma sorted_key_ordered: "fst (sorted_key a b) \<le> snd (sorted_key a b)"
  by (auto simp: sorted_key_def)

lemma canonical_ledger_add_meetings:
  assumes "canonical_ledger (previous_meetings s)"
  shows "canonical_ledger (previous_meetings (add_meetings s groups))"
proof -
  have "fst key \<le> snd key" if "key |\<in>| round_pair_keys groups" for key
    using that sorted_key_ordered
    by (auto simp: round_pair_keys_iff group_pair_keys_iff)
  with assms show ?thesis
    by (auto simp: canonical_ledger_def previous_meetings_add_meetings)
qed

text \<open>
  In a canonical ledger the key that \<open>get_meeting_count\<close> looks up is absent exactly
  when the pair is absent in either order.
\<close>

lemma sorted_key_absent_iff:
  assumes "canonical_ledger L"
  shows "sorted_key a b |\<notin>| L \<longleftrightarrow> (a, b) |\<notin>| L \<and> (b, a) |\<notin>| L"
proof (cases "b < a")
  case True
  with assms have "(a, b) |\<notin>| L"
    by (auto simp: canonical_ledger_def)
  with True show ?thesis
    by (simp add: sorted_key_def)
next
  case False
  have "(b, a) |\<in>| L \<Longrightarrow> (a, b) |\<in>| L"
  proof -
    assume in_L: "(b, a) |\<in>| L"
    with assms have "b \<le> a"
      by (auto simp: canonical_ledger_def)
    with False have "a = b" by simp
    with in_L show "(a, b) |\<in>| L" by simp
  qed
  with False show ?thesis
    by (auto simp: sorted_key_def)
qed

text \<open>
  Claim C2. For a ledger of canonical pair keys, the cost of a partition, the sum over
  its groups of the repeat count plus twice the imbalance, is zero exactly when no
  two members of any group are in the ledger as a pair, in either order, and every
  group has \<open>k div 2\<close> participants of the first category and \<open>k - k div 2\<close> of the
  second.
\<close>

theorem total_score_zero_iff:
  assumes "canonical_ledger (previous_meetings s)"
  shows "total_score s groups = 0 \<longleftrightarrow>
     (\<forall>grp \<in> set groups.
        (\<forall>i j. i < j \<and> j < length grp \<longrightarrow>
           (nickname (grp ! i), nickname (grp ! j)) |\<notin>| previous_meetings s
           \<and> (nickname (grp ! j), nickname (grp ! i)) |\<notin>| previous_meetings s)
        \<and> count_category_A grp = group_size s div 2
        \<and> count_category_B grp = group_size s - group_size s div 2)"
  unfolding total_score_zero_iff_key sorted_key_absent_iff [OF assms] ..

text \<open>
  A session of four in groups of two after a round in which \<open>b\<close> and \<open>a\<close> shared a
  group, in this order: the ledger holds the pair as \<open>(a, b)\<close>. A round that puts
  \<open>c\<close> with \<open>d\<close> costs nothing; a round that puts \<open>b\<close> with \<open>a\<close> again does.
\<close>

theorem total_score_zero_iff_witness:
  "previous_meetings
      (add_meetings
         \<lparr>people = [Person_init ''a'' female_label, Person_init ''b'' male_label,
                    Person_init ''c'' male_label, Person_init ''d'' female_label],
          group_size = 2, num_groups = 2, previous_meetings = {||}, round_history = [],
          current_round = 0\<rparr>
         [[Person_init ''b'' male_label, Person_init ''a'' female_label]])
     = {|(''a'', ''b'')|}
   \<and> canonical_ledger {|(''a'', ''b'')|}
   \<and> total_score
        \<lparr>people = [Person_init ''a'' female_label, Person_init ''b'' male_label,
                   Person_init ''c'' male_label, Person_init ''d'' female_label],
         group_size = 2, num_groups = 2, previous_meetings = {|(''a'', ''b'')|},
         round_history = [], current_round = 0\<rparr>
        [[Person_init ''c'' male_label, Person_init ''d'' female_label]] = 0
   \<and> total_score
        \<lparr>people = [Person_init ''a'' female_label, Person_init ''b'' male_label,
                   Person_init ''c'' male_label, Person_init ''d'' female_label],
         group_size = 2, num_groups = 2, previous_meetings = {|(''a'', ''b'')|},
         round_history = [], current_round = 0\<rparr>
        [[Person_init ''b'' male_label, Person_init ''a'' female_label]] \<noteq> 0"
proof -
  let ?ps = "[Person_init ''a'' female_label, Person_init ''b'' male_label,
              Person_init ''c'' male_label, Person_init ''d'' female_label]"
  let ?start = "\<lparr>people = ?ps, group_size = 2, num_groups = 2, previous_meetings = {||},
              round_history = [], current_round = 0\<rparr>"
  let ?s = "\<lparr>people = ?ps, group_size = 2, num_groups = 2,
             previous_meetings = {|(''a'', ''b'')|}, round_history = [], current_round = 0\<rparr>"
  let ?cd = "[Person_init ''c'' male_label, Person_init ''d'' female_label]"
  let ?ba = "[Person_init ''b'' male_label, Person_init ''a'' female_label]"
  have ledger: "previous_meetings (add_meetings ?start [?ba]) = {|(''a'', ''b'')|}"
    by (simp add: previous_meetings_add_meetings round_pair_keys_Cons round_pair_keys_Nil
        group_pair_keys_def sorted_key_def Person_init_def upt_rec)
  have canonical: "canonical_ledger (previous_meetings ?s)"
    by (simp add: canonical_ledger_def)
  have A: "count_category_A ?cd = 1"
    by (simp add: count_category_A_def Person_init_def male_label_def female_label_def)
  have B: "count_category_B ?cd = 1"
    by (simp add: count_category_B_def Person_init_def male_label_def female_label_def)
  have "\<forall>grp \<in> set [?cd].
        (\<forall>i j. i < j \<and> j < length grp \<longrightarrow>
           (nickname (grp ! i), nickname (grp ! j)) |\<notin>| previous_meetings ?s
           \<and> (nickname (grp ! j), nickname (grp ! i)) |\<notin>| previous_meetings ?s)
        \<and> count_category_A grp = group_size ?s div 2
        \<and> count_category_B grp = group_size ?s - group_size ?s div 2"
    using A B by (auto simp: Person_init_def less_Suc_eq)
  with total_score_zero_iff [OF canonical, of "[?cd]"] have free: "total_score ?s [?cd] = 0"
    by (rule iffD2)
  have met: "total_score ?s [?ba] \<noteq> 0"
  proof
    assume "total_score ?s [?ba] = 0"
    with total_score_zero_iff [OF canonical, of "[?ba]"]
    have "\<forall>grp \<in> set [?ba].
        (\<forall>i j. i < j \<and> j < length grp \<longrightarrow>
           (nickname (grp ! i), nickname (grp ! j)) |\<notin>| previous_meetings ?s
           \<and> (nickname (grp ! j), nickname (grp ! i)) |\<notin>| previous_meetings ?s)
        \<and> count_category_A grp = group_size ?s div 2
        \<and> count_category_B grp = group_size ?s - group_size ?s div 2"
      by (rule iffD1)
    then have "\<forall>i j. i < j \<and> j < length ?ba \<longrightarrow>
           (nickname (?ba ! i), nickname (?ba ! j)) |\<notin>| previous_meetings ?s
           \<and> (nickname (?ba ! j), nickname (?ba ! i)) |\<notin>| previous_meetings ?s"
      by simp
    then have "(0::nat) < 1 \<and> 1 < length ?ba \<longrightarrow>
           (nickname (?ba ! 0), nickname (?ba ! 1)) |\<notin>| previous_meetings ?s
           \<and> (nickname (?ba ! 1), nickname (?ba ! 0)) |\<notin>| previous_meetings ?s"
      by blast
    then show False
      by (simp add: Person_init_def)
  qed
  from canonical have canonical': "canonical_ledger {|(''a'', ''b'')|}"
    by simp
  show ?thesis
    by (intro conjI ledger canonical' free met)
qed

text \<open>
  Claim C10. The balance score depends on the group only through its length and the
  number \<open>m\<close> of participants whose gender is the male label. The second count is the
  length minus \<open>m\<close>, which is the number of participants with any other gender; for
  a group of \<open>k\<close> participants the score is
  \<open>|m - k div 2| + |(k - m) - (k - k div 2)|\<close>.
\<close>

theorem gender_balance_score_formula:
  "calculate_gender_balance_score s grp
     = \<bar>count_category_A grp - group_size s div 2\<bar>
       + \<bar>(int (length grp) - count_category_A grp) - (group_size s - group_size s div 2)\<bar>
   \<and> int (length grp) - count_category_A grp = count_category_B grp
   \<and> (int (length grp) = group_size s \<longrightarrow>
        calculate_gender_balance_score s grp
          = \<bar>count_category_A grp - group_size s div 2\<bar>
            + \<bar>(group_size s - count_category_A grp) - (group_size s - group_size s div 2)\<bar>)"
  using count_categories [of grp]
  by (simp add: calculate_gender_balance_score_def male_count_eq Let_def)

text \<open>
  A group of two in a session with groups of two: one participant with the male
  label and one whose gender is neither label.
\<close>

theorem gender_balance_score_formula_witness:
  "int (length [Person_init ''a'' male_label, Person_init ''b'' ''x'']) = 2
   \<and> count_category_A [Person_init ''a'' male_label, Person_init ''b'' ''x''] = 1
   \<and> count_category_B [Person_init ''a'' male_label, Person_init ''b'' ''x''] = 1
   \<and> calculate_gender_balance_score
        \<lparr>people = [Person_init ''a'' male_label, Person_init ''b'' ''x''],
         group_size = 2, num_groups = 1, previous_meetings = {||}, round_history = [],
         current_round = 0\<rparr>
        [Person_init ''a'' male_label, Person_init ''b'' ''x'']
       = \<bar>1 - 2 div 2\<bar> + \<bar>(2 - 1) - (2 - 2 div 2)\<bar>"
proof -
  let ?grp = "[Person_init ''a'' male_label, Person_init ''b'' ''x'']"
  let ?s = "\<lparr>people = ?grp, group_size = 2, num_groups = 1, previous_meetings = {||},
       round_history = [], current_round = 0\<rparr>"
  have len: "int (length ?grp) = group_size ?s"
    by simp
  have A: "count_category_A ?grp = 1"
    by (simp add: count_category_A_def Person_init_def male_label_def)
  have B: "count_category_B ?grp = 1"
    by (simp add: count_category_B_def Person_init_def male_label_def)
  from gender_balance_score_formula [of ?s ?grp] len
  have "calculate_gender_balance_score ?s ?grp
      = \<bar>count_category_A ?grp - group_size ?s div 2\<bar>
        + \<bar>(group_size ?s - count_category_A ?grp) - (group_size ?s - group_size ?s div 2)\<bar>"
    by blast
  with A B show ?thesis
    by simp
qed

section \<open>The search\<close>

lemma candidate_cost_nonneg: "0 \<le> candidate_cost s sh c"
  by (simp add: candidate_cost_def total_score_nonneg)

declare genetic_loop.simps [simp del]

lemma genetic_loop_done:
  "\<not> iteration < n \<Longrightarrow> genetic_loop s sh pos n iteration st = (st, iteration)"
  by (cases st) (simp add: genetic_loop.simps)

lemma genetic_loop_step:
  assumes "iteration < n"
  shows "genetic_loop s sh pos n iteration (best_groups, best) =
     (if score_less (candidate_cost s sh (pos + iteration)) best then
        (if candidate_cost s sh (pos + iteration) = 0
         then ((Some (candidate s sh (pos + iteration)), Score 0), Suc iteration)
         else genetic_loop s sh pos n (Suc iteration)
                (Some (candidate s sh (pos + iteration)),
                 Score (candidate_cost s sh (pos + iteration))))
      else genetic_loop s sh pos n (Suc iteration) (best_groups, best))"
  using assms
  by (subst genetic_loop.simps) (simp add: Let_def candidate_cost_def candidate_def)

lemma best_of_sampled_improve:
  assumes inv: "best_of_sampled s sh pos c (best_groups, best)"
    and less: "score_less (candidate_cost s sh (pos + c)) best"
  shows "best_of_sampled s sh pos (Suc c)
           (Some (candidate s sh (pos + c)), Score (candidate_cost s sh (pos + c)))"
proof -
  have "candidate_cost s sh (pos + c) \<le> candidate_cost s sh (pos + i)" if "i < Suc c" for i
  proof (cases "i = c")
    case True
    then show ?thesis by simp
  next
    case False
    with that have i: "i < c" by simp
    then have "best_groups \<noteq> None"
      using inv by (auto simp: best_of_sampled_def split: option.splits)
    then obtain j where "j < c" and b: "best = Score (candidate_cost s sh (pos + j))"
      and le: "\<forall>i < c. candidate_cost s sh (pos + j) \<le> candidate_cost s sh (pos + i)"
      using inv by (auto simp: best_of_sampled_def split: option.splits)
    from less b have "candidate_cost s sh (pos + c) < candidate_cost s sh (pos + j)"
      by simp
    moreover from le i have "candidate_cost s sh (pos + j) \<le> candidate_cost s sh (pos + i)"
      by simp
    ultimately show ?thesis by simp
  qed
  then have "\<exists>j < Suc c. candidate s sh (pos + c) = candidate s sh (pos + j)
      \<and> Score (candidate_cost s sh (pos + c)) = Score (candidate_cost s sh (pos + j))
      \<and> (\<forall>i < Suc c. candidate_cost s sh (pos + j) \<le> candidate_cost s sh (pos + i))"
    by (intro exI [of _ c]) blast
  then show ?thesis
    by (simp only: best_of_sampled_def fst_conv snd_conv option.case)
qed

lemma best_of_sampled_keep:
  assumes inv: "best_of_sampled s sh pos c (best_groups, best)"
    and keep: "\<not> score_less (candidate_cost s sh (pos + c)) best"
  shows "best_of_sampled s sh pos (Suc c) (best_groups, best)
         \<and> (\<exists>j < c. candidate_cost s sh (pos + j) \<le> candidate_cost s sh (pos + c))"
proof -
  from keep have "best \<noteq> Infinity"
    by auto
  with inv obtain g j where g: "best_groups = Some g" and j: "j < c"
    and gj: "g = candidate s sh (pos + j)"
    and b: "best = Score (candidate_cost s sh (pos + j))"
    and le: "\<forall>i < c. candidate_cost s sh (pos + j) \<le> candidate_cost s sh (pos + i)"
    by (cases best_groups) (auto simp: best_of_sampled_def)
  from keep b have last: "candidate_cost s sh (pos + j) \<le> candidate_cost s sh (pos + c)"
    by simp
  with le have "\<forall>i < Suc c. candidate_cost s sh (pos + j) \<le> candidate_cost s sh (pos + i)"
    by (simp add: less_Suc_eq)
  with j gj b have "\<exists>j < Suc c. g = candidate s sh (pos + j)
      \<and> best = Score (candidate_cost s sh (pos + j))
      \<and> (\<forall>i < Suc c. candidate_cost s sh (pos + j) \<le> candidate_cost s sh (pos + i))"
    by (intro exI [of _ j]) simp
  then have "best_of_sampled s sh pos (Suc c) (best_groups, best)"
    by (simp only: best_of_sampled_def fst_conv snd_conv g option.case)
  with j last show ?thesis by blast
qed

text \<open>
  What the loop establishes, from any iteration at which the best-so-far is held and
  no candidate of cost zero has been seen.
\<close>

lemma genetic_loop_correct:
  assumes "best_of_sampled s sh pos iteration st"
    and "\<forall>i < iteration. candidate_cost s sh (pos + i) \<noteq> 0"
    and "iteration \<le> n"
    and "genetic_loop s sh pos n iteration st = (st', c)"
  shows "iteration \<le> c \<and> c \<le> n
    \<and> best_of_sampled s sh pos c st'
    \<and> (\<forall>i. Suc i < c \<longrightarrow> candidate_cost s sh (pos + i) \<noteq> 0)
    \<and> (c < n \<longrightarrow> 0 < c \<and> candidate_cost s sh (pos + (c - 1)) = 0)"
  using assms
proof (induction "n - iteration" arbitrary: iteration st)
  case 0
  then have stop: "\<not> iteration < n" by simp
  with "0.prems" have "st' = st" and "c = iteration"
    by (simp_all add: genetic_loop_done)
  with "0.prems" stop show ?case by simp
next
  case (Suc d)
  then have lt: "iteration < n" by simp
  obtain best_groups best where st: "st = (best_groups, best)"
    by (cases st)
  let ?t = "candidate_cost s sh (pos + iteration)"
  let ?g = "candidate s sh (pos + iteration)"
  note inv = Suc.prems(1) [unfolded st] and nz = Suc.prems(2)
    and run = Suc.prems(4) [unfolded st genetic_loop_step [OF lt]]
  from Suc.hyps(2) have d: "d = n - Suc iteration" by simp
  from lt have le': "Suc iteration \<le> n" by simp
  show ?case
  proof (cases "score_less ?t best")
    case less: True
    show ?thesis
    proof (cases "?t = 0")
      case True
      with run less have res: "st' = (Some ?g, Score ?t)" "c = Suc iteration"
        by simp_all
      have "best_of_sampled s sh pos (Suc iteration) (Some ?g, Score ?t)"
        using inv less by (rule best_of_sampled_improve)
      with res nz lt True show ?thesis
        by simp
    next
      case False
      with run less have run': "genetic_loop s sh pos n (Suc iteration) (Some ?g, Score ?t) = (st', c)"
        by simp
      have inv': "best_of_sampled s sh pos (Suc iteration) (Some ?g, Score ?t)"
        using inv less by (rule best_of_sampled_improve)
      from nz False have nz': "\<forall>i < Suc iteration. candidate_cost s sh (pos + i) \<noteq> 0"
        by (simp add: less_Suc_eq)
      from Suc.hyps(1) [OF d inv' nz' le' run'] show ?thesis
        by (blast intro: Suc_leD)
    qed
  next
    case keep: False
    with run have run': "genetic_loop s sh pos n (Suc iteration) (best_groups, best) = (st', c)"
      by simp
    from best_of_sampled_keep [OF inv keep]
    have inv': "best_of_sampled s sh pos (Suc iteration) (best_groups, best)"
      and "\<exists>j < iteration. candidate_cost s sh (pos + j) \<le> ?t"
      by simp_all
    then obtain j where j: "j < iteration" and "candidate_cost s sh (pos + j) \<le> ?t"
      by blast
    moreover from nz j have "candidate_cost s sh (pos + j) \<noteq> 0"
      by simp
    moreover have "0 \<le> candidate_cost s sh (pos + j)"
      by (rule candidate_cost_nonneg)
    ultimately have "?t \<noteq> 0" by simp
    with nz have nz': "\<forall>i < Suc iteration. candidate_cost s sh (pos + i) \<noteq> 0"
      by (simp add: less_Suc_eq)
    from Suc.hyps(1) [OF d inv' nz' le' run'] show ?thesis
      by (blast intro: Suc_leD)
  qed
qed

lemma genetic_loop_from_start:
  assumes "genetic_loop s sh pos n 0 (None, Infinity) = (st', c)"
  shows "c \<le> n
    \<and> best_of_sampled s sh pos c st'
    \<and> (\<forall>i. Suc i < c \<longrightarrow> candidate_cost s sh (pos + i) \<noteq> 0)
    \<and> (c < n \<longrightarrow> 0 < c \<and> candidate_cost s sh (pos + (c - 1)) = 0)"
proof -
  have "best_of_sampled s sh pos 0 (None, Infinity)"
    by (simp add: best_of_sampled_def)
  moreover have "\<forall>i < (0::nat). candidate_cost s sh (pos + i) \<noteq> 0"
    by simp
  ultimately show ?thesis
    using genetic_loop_correct [of s sh pos 0 "(None, Infinity)" n st' c] assms
    by blast
qed

lemma genetic_loop_none_iff:
  assumes "genetic_loop s sh pos n 0 (None, Infinity) = (st', c)"
  shows "fst st' = None \<longleftrightarrow> n = 0"
proof
  assume "fst st' = None"
  with genetic_loop_from_start [OF assms] have "c = 0" and "c < n \<longrightarrow> 0 < c"
    by (auto simp: best_of_sampled_def)
  then show "n = 0" by simp
next
  assume "n = 0"
  with genetic_loop_from_start [OF assms] have "best_of_sampled s sh pos 0 st'"
    by auto
  then show "fst st' = None"
    by (simp add: best_of_sampled_def split: option.splits)
qed

text \<open>
  Claim C9. With an iteration budget of zero the loop body never runs: the search
  returns \<open>None\<close> and makes no call of the shuffle. The result is \<open>None\<close> exactly
  for the budgets below one.
\<close>

theorem generate_groups_genetic_no_budget:
  "generate_groups_genetic s sh pos 0 = (None, pos)
   \<and> (fst (generate_groups_genetic s sh pos max_iterations) = None
        \<longleftrightarrow> max_iterations \<le> 0)"
proof
  show "generate_groups_genetic s sh pos 0 = (None, pos)"
    by (simp add: generate_groups_genetic_def genetic_loop_done)
next
  obtain st' c where run: "genetic_loop s sh pos (nat max_iterations) 0 (None, Infinity) = (st', c)"
    by (cases "genetic_loop s sh pos (nat max_iterations) 0 (None, Infinity)")
  then have "fst (generate_groups_genetic s sh pos max_iterations) = fst st'"
    by (simp add: generate_groups_genetic_def split: prod.splits)
  also have "\<dots> = None \<longleftrightarrow> nat max_iterations = 0"
    using run by (rule genetic_loop_none_iff)
  finally show "fst (generate_groups_genetic s sh pos max_iterations) = None
      \<longleftrightarrow> max_iterations \<le> 0"
    by simp
qed

text \<open>
  Claim C3. With a budget of at least one iteration the search returns a partition.
  It is one of the candidates sampled, and none of the candidates sampled is cheaper.
  A candidate of cost zero is the last one sampled, so the loop stops at the first
  such candidate; and the loop stops before the budget is used up only with a
  partition of cost zero.
\<close>

theorem generate_groups_genetic_best:
  assumes "1 \<le> max_iterations"
    and "generate_groups_genetic s sh pos max_iterations = (result, pos')"
  shows "\<exists>g. result = Some g
    \<and> pos < pos' \<and> pos' \<le> pos + nat max_iterations
    \<and> (\<exists>c. pos \<le> c \<and> c < pos' \<and> g = candidate s sh c)
    \<and> (\<forall>c. pos \<le> c \<and> c < pos' \<longrightarrow> total_score s g \<le> total_score s (candidate s sh c))
    \<and> (\<forall>c. pos \<le> c \<and> c < pos' \<and> total_score s (candidate s sh c) = 0 \<longrightarrow> pos' = Suc c)
    \<and> (pos' < pos + nat max_iterations \<longrightarrow> total_score s g = 0)"
proof -
  let ?n = "nat max_iterations"
  obtain st' c where run: "genetic_loop s sh pos ?n 0 (None, Infinity) = (st', c)"
    by (cases "genetic_loop s sh pos ?n 0 (None, Infinity)")
  with assms(2) have result: "result = fst st'" and pos': "pos' = pos + c"
    by (auto simp: generate_groups_genetic_def split: prod.splits)
  from genetic_loop_from_start [OF run]
  have c_le: "c \<le> ?n" and best: "best_of_sampled s sh pos c st'"
    and nonzero: "\<forall>i. Suc i < c \<longrightarrow> candidate_cost s sh (pos + i) \<noteq> 0"
    and early: "c < ?n \<longrightarrow> 0 < c \<and> candidate_cost s sh (pos + (c - 1)) = 0"
    by simp_all
  from assms(1) have "0 < ?n" by simp
  with early c_le have c_pos: "0 < c"
    by (cases "c < ?n") simp_all
  with best obtain g j where g: "fst st' = Some g" and j: "j < c"
    and gj: "g = candidate s sh (pos + j)"
    and least: "\<forall>i < c. candidate_cost s sh (pos + j) \<le> candidate_cost s sh (pos + i)"
    by (cases "fst st'") (auto simp: best_of_sampled_def)
  have cost_g: "total_score s g = candidate_cost s sh (pos + j)"
    by (simp add: gj candidate_cost_def)
  have sampled: "\<exists>c. pos \<le> c \<and> c < pos' \<and> g = candidate s sh c"
    using j gj pos' by (intro exI [of _ "pos + j"]) simp
  have minimal: "total_score s g \<le> total_score s (candidate s sh d)"
    if "pos \<le> d \<and> d < pos'" for d
  proof -
    from that pos' have "d - pos < c" and "d = pos + (d - pos)"
      by linarith+
    with least have "candidate_cost s sh (pos + j) \<le> candidate_cost s sh d"
      by metis
    then show ?thesis
      by (simp add: cost_g candidate_cost_def)
  qed
  have stops: "pos' = Suc d"
    if "pos \<le> d \<and> d < pos' \<and> total_score s (candidate s sh d) = 0" for d
  proof (rule ccontr)
    assume "pos' \<noteq> Suc d"
    with that pos' have "Suc (d - pos) < c" and d: "d = pos + (d - pos)"
      by linarith+
    with nonzero have "candidate_cost s sh (pos + (d - pos)) \<noteq> 0"
      by blast
    with d that show False
      by (simp add: candidate_cost_def)
  qed
  have zero: "total_score s g = 0" if "pos' < pos + ?n"
  proof -
    from that pos' early have "candidate_cost s sh (pos + (c - 1)) = 0"
      by auto
    moreover from c_pos have "c - 1 < c"
      by simp
    with least have "candidate_cost s sh (pos + j) \<le> candidate_cost s sh (pos + (c - 1))"
      by blast
    moreover have "0 \<le> candidate_cost s sh (pos + j)"
      by (rule candidate_cost_nonneg)
    ultimately show ?thesis
      by (simp add: cost_g)
  qed
  from result g c_pos c_le pos' sampled minimal stops zero show ?thesis
    by (intro exI [of _ g]) simp
qed

text \<open>
  Two men and two women in groups of two, with a budget of five: the first candidate
  pairs the men and costs 8, the second is balanced and costs 0, and the search stops
  after two shuffles.
\<close>

theorem generate_groups_genetic_best_witness:
  "(1::int) \<le> 5
   \<and> generate_groups_genetic
        \<lparr>people = [Person_init ''a'' male_label, Person_init ''c'' male_label,
                   Person_init ''b'' female_label, Person_init ''d'' female_label],
         group_size = 2, num_groups = 2, previous_meetings = {||}, round_history = [],
         current_round = 0\<rparr>
        shuffle_rotate_later 0 5
       = (Some [[Person_init ''c'' male_label, Person_init ''b'' female_label],
                [Person_init ''d'' female_label, Person_init ''a'' male_label]], 2)
   \<and> total_score
        \<lparr>people = [Person_init ''a'' male_label, Person_init ''c'' male_label,
                   Person_init ''b'' female_label, Person_init ''d'' female_label],
         group_size = 2, num_groups = 2, previous_meetings = {||}, round_history = [],
         current_round = 0\<rparr>
        [[Person_init ''c'' male_label, Person_init ''b'' female_label],
         [Person_init ''d'' female_label, Person_init ''a'' male_label]] = 0"
proof -
  let ?s = "\<lparr>people = [Person_init ''a'' male_label, Person_init ''c'' male_label,
                   Person_init ''b'' female_label, Person_init ''d'' female_label],
         group_size = 2, num_groups = 2, previous_meetings = {||}, round_history = [],
         current_round = 0\<rparr>"
  let ?g = "[[Person_init ''c'' male_label, Person_init ''b'' female_label],
            [Person_init ''d'' female_label, Person_init ''a'' male_label]]"
  have budget: "(1::int) \<le> 5"
    by simp
  have run: "generate_groups_genetic ?s shuffle_rotate_later 0 5 = (Some ?g, 2)"
    by code_simp
  from generate_groups_genetic_best [OF budget run]
  have "(2::nat) < 0 + nat 5 \<longrightarrow> total_score ?s ?g = 0"
    by simp
  then have "total_score ?s ?g = 0"
    by simp
  with budget run show ?thesis
    by simp
qed

section \<open>Rounds\<close>

lemma py_slice_inside:
  assumes "0 \<le> a" and "a \<le> b" and "b \<le> int (length xs)"
  shows "py_slice xs a b = take (nat (b - a)) (drop (nat a) xs)"
  using assms by (simp add: py_slice_def Let_def min_def)

lemma concat_blocks:
  "concat (map (\<lambda>i. take k (drop (i * k) xs)) [0 ..< m]) = take (m * k) xs"
proof (induction m)
  case 0
  show ?case by simp
next
  case (Suc m)
  have "take (m * k) xs @ take k (drop (m * k) xs) = take (m * k + k) xs"
    by (simp add: take_add)
  with Suc show ?case
    by (simp add: add.commute)
qed

lemma make_groups_blocks:
  assumes k: "0 < group_size s"
    and ng: "num_groups s = int (length (people s)) div group_size s"
    and len: "length xs = length (people s)"
  shows "make_groups s xs =
     map (\<lambda>i. take (nat (group_size s)) (drop (i * nat (group_size s)) xs))
         [0 ..< length xs div nat (group_size s)]"
proof -
  let ?k = "nat (group_size s)"
  let ?m = "length xs div ?k"
  have kk: "int ?k = group_size s" and kpos: "0 < ?k"
    using k by simp_all
  have m: "nat (num_groups s) = ?m"
    using k by (simp add: ng len nat_div_distrib)
  have block: "py_slice xs (int i * group_size s) (int i * group_size s + group_size s)
      = take ?k (drop (i * ?k) xs)" if "i < ?m" for i
  proof -
    from that have "Suc i * ?k \<le> ?m * ?k"
      by (intro mult_le_mono1) simp
    also have "\<dots> \<le> length xs"
      by simp
    finally have "int (Suc i * ?k) \<le> int (length xs)"
      by (simp only: of_nat_le_iff)
    moreover have "int (Suc i * ?k) = int i * group_size s + group_size s"
      using k by (simp add: algebra_simps)
    ultimately have up: "int i * group_size s + group_size s \<le> int (length xs)"
      by (simp only:)
    have lo: "0 \<le> int i * group_size s"
      using k by simp
    have "nat (int i * group_size s) = i * ?k"
      using k by (simp add: nat_mult_distrib)
    with py_slice_inside [OF lo _ up] k show ?thesis
      by simp
  qed
  have "make_groups s xs
      = map (\<lambda>i. py_slice xs (int i * group_size s) (int i * group_size s + group_size s))
            [0 ..< ?m]"
    by (simp add: make_groups_def py_range_def m Let_def comp_def)
  also have "\<dots> = map (\<lambda>i. take ?k (drop (i * ?k) xs)) [0 ..< ?m]"
    by (rule map_cong) (simp_all add: block)
  finally show ?thesis .
qed

text \<open>
  Every group that the search builds has \<open>group_size\<close> members, for a session as
  the constructor makes it with a positive group size.
\<close>

lemma make_groups_lengths:
  assumes k: "0 < group_size s"
    and ng: "num_groups s = int (length (people s)) div group_size s"
    and len: "length xs = length (people s)"
  shows "list_all (\<lambda>grp. int (length grp) = group_size s) (make_groups s xs)"
proof -
  let ?k = "nat (group_size s)"
  let ?m = "length xs div ?k"
  have "length (take ?k (drop (i * ?k) xs)) = ?k" if "i < ?m" for i
  proof -
    from that have "Suc i * ?k \<le> ?m * ?k"
      by (intro mult_le_mono1) simp
    also have "\<dots> \<le> length xs"
      by simp
    finally have "i * ?k + ?k \<le> length xs"
      by (simp add: add.commute)
    then show ?thesis
      by simp
  qed
  then show ?thesis
    unfolding make_groups_blocks [OF k ng len] using k by (simp add: list_all_iff)
qed

text \<open>
  A candidate of the search is structurally valid when the group size is positive
  and divides the population, the nicknames are distinct, and the shuffle permutes.
\<close>

lemma candidate_structurally_valid:
  assumes k: "0 < group_size s"
    and dv: "int (length (people s)) mod group_size s = 0"
    and ng: "num_groups s = int (length (people s)) div group_size s"
    and dist: "distinct (map nickname (people s))"
    and perm: "mset (sh c (people s)) = mset (people s)"
  shows "structurally_valid (people s) (group_size s) (candidate s sh c)"
proof -
  let ?xs = "sh c (people s)"
  let ?k = "nat (group_size s)"
  let ?m = "length ?xs div ?k"
  have len: "length ?xs = length (people s)"
    using perm by (rule mset_eq_length)
  have "int (length ?xs mod ?k) = int (length (people s)) mod group_size s"
    using k by (simp add: len zmod_int)
  with dv have "length ?xs mod ?k = 0"
    by simp
  then have full: "?m * ?k = length ?xs"
    by (simp add: mod_eq_0_iff_dvd)
  have groups: "candidate s sh c = map (\<lambda>i. take ?k (drop (i * ?k) ?xs)) [0 ..< ?m]"
    unfolding candidate_def using k ng len by (rule make_groups_blocks)
  have "concat (candidate s sh c) = take (?m * ?k) ?xs"
    unfolding groups by (rule concat_blocks)
  with full have whole: "concat (candidate s sh c) = ?xs"
    by simp
  have names: "mset (map nickname ?xs) = mset (map nickname (people s))"
    using perm by (metis mset_map)
  have sizes: "list_all (\<lambda>grp. int (length grp) = group_size s) (candidate s sh c)"
    unfolding candidate_def using k ng len by (rule make_groups_lengths)
  have "distinct (map nickname ?xs)"
    using names dist by (metis mset_eq_imp_distinct_iff)
  moreover have "set (map nickname ?xs) = set (map nickname (people s))"
    using names by (rule mset_eq_setD)
  ultimately show ?thesis
    unfolding structurally_valid_def whole using sizes by simp
qed

lemma generate_groups_genetic_sampled:
  assumes "1 \<le> max_iterations"
  shows "\<exists>j pos'. generate_groups_genetic s sh pos max_iterations
           = (Some (candidate s sh (pos + j)), pos')"
proof -
  obtain st' c where run: "genetic_loop s sh pos (nat max_iterations) 0 (None, Infinity) = (st', c)"
    by (cases "genetic_loop s sh pos (nat max_iterations) 0 (None, Infinity)")
  from genetic_loop_none_iff [OF run] assms have "fst st' \<noteq> None"
    by simp
  moreover from genetic_loop_from_start [OF run] have "best_of_sampled s sh pos c st'"
    by simp
  ultimately obtain j where "fst st' = Some (candidate s sh (pos + j))"
    by (auto simp: best_of_sampled_def)
  with run show ?thesis
    by (cases st') (auto simp: generate_groups_genetic_def)
qed

lemma shuffle_rotate_later_permutes: "mset (shuffle_rotate_later c xs) = mset xs"
  by (cases xs) (simp_all add: shuffle_rotate_later_def)

lemma candidate_current_round:
  "candidate (s\<lparr>current_round := r\<rparr>) sh c = candidate s sh c"
  by (simp add: candidate_def make_groups_def)

lemma create_new_round_result:
  assumes "generate_groups_genetic (s\<lparr>current_round := current_round s + 1\<rparr>) sh pos 1000
             = (Some groups, pos')"
  shows "create_new_round sh (s, pos)
     = (Inr groups,
        (s\<lparr>current_round := current_round s + 1,
           previous_meetings := previous_meetings s |\<union>| round_pair_keys groups,
           round_history := round_history s @ [groups]\<rparr>, pos'))"
  using assms
  by (simp add: create_new_round_def Let_def add_meetings_def fold_add_meetings_group)

text \<open>
  Claim C6, as the code has it. \<open>create_new_round\<close> has no validation step and
  raises no error: it always commits the partition the search returns, adding its
  pair keys to the ledger and the partition to the history. That partition satisfies
  the structural invariants by construction when the group size is positive and
  divides the population size, the nicknames are distinct and every shuffle is a
  permutation.
\<close>

theorem create_new_round_commits:
  "\<exists>groups pos'.
     generate_groups_genetic (s\<lparr>current_round := current_round s + 1\<rparr>) sh pos 1000
       = (Some groups, pos')
     \<and> create_new_round sh (s, pos)
         = (Inr groups,
            (s\<lparr>current_round := current_round s + 1,
               previous_meetings := previous_meetings s |\<union>| round_pair_keys groups,
               round_history := round_history s @ [groups]\<rparr>, pos'))
     \<and> (0 < group_size s
          \<and> int (length (people s)) mod group_size s = 0
          \<and> num_groups s = int (length (people s)) div group_size s
          \<and> distinct (map nickname (people s))
          \<and> (\<forall>c xs. mset (sh c xs) = mset xs)
          \<longrightarrow> structurally_valid (people s) (group_size s) groups)"
proof -
  let ?s1 = "s\<lparr>current_round := current_round s + 1\<rparr>"
  obtain j pos' where
    run: "generate_groups_genetic ?s1 sh pos 1000 = (Some (candidate ?s1 sh (pos + j)), pos')"
    using generate_groups_genetic_sampled [of 1000 ?s1 sh pos] by auto
  let ?groups = "candidate ?s1 sh (pos + j)"
  have "structurally_valid (people s) (group_size s) ?groups"
    if "0 < group_size s
          \<and> int (length (people s)) mod group_size s = 0
          \<and> num_groups s = int (length (people s)) div group_size s
          \<and> distinct (map nickname (people s))
          \<and> (\<forall>c xs. mset (sh c xs) = mset xs)"
    unfolding candidate_current_round
    using that by (intro candidate_structurally_valid) simp_all
  with run create_new_round_result [OF run] show ?thesis
    by blast
qed

text \<open>
  Two men and two women in groups of two: the second shuffle gives a balanced
  partition, which is committed.
\<close>

theorem create_new_round_commits_witness:
  "create_new_round shuffle_rotate_later
     (\<lparr>people = [Person_init ''a'' male_label, Person_init ''c'' male_label,
                 Person_init ''b'' female_label, Person_init ''d'' female_label],
       group_size = 2, num_groups = 2, previous_meetings = {||}, round_history = [],
       current_round = 0\<rparr>, 0)
     = (Inr [[Person_init ''c'' male_label, Person_init ''b'' female_label],
             [Person_init ''d'' female_label, Person_init ''a'' male_label]],
        (\<lparr>people = [Person_init ''a'' male_label, Person_init ''c'' male_label,
                    Person_init ''b'' female_label, Person_init ''d'' female_label],
          group_size = 2, num_groups = 2,
          previous_meetings = {|(''a'', ''d''), (''b'', ''c'')|},
          round_history = [[[Person_init ''c'' male_label, Person_init ''b'' female_label],
                            [Person_init ''d'' female_label, Person_init ''a'' male_label]]],
          current_round = 1\<rparr>, 2))
   \<and> structurally_valid
        [Person_init ''a'' male_label, Person_init ''c'' male_label,
         Person_init ''b'' female_label, Person_init ''d'' female_label] 2
        [[Person_init ''c'' male_label, Person_init ''b'' female_label],
         [Person_init ''d'' female_label, Person_init ''a'' male_label]]"
proof -
  let ?ps = "[Person_init ''a'' male_label, Person_init ''c'' male_label,
              Person_init ''b'' female_label, Person_init ''d'' female_label]"
  let ?s = "\<lparr>people = ?ps, group_size = 2, num_groups = 2, previous_meetings = {||},
             round_history = [], current_round = 0\<rparr>"
  let ?g = "[[Person_init ''c'' male_label, Person_init ''b'' female_label],
            [Person_init ''d'' female_label, Person_init ''a'' male_label]]"
  have run: "generate_groups_genetic (?s\<lparr>current_round := current_round ?s + 1\<rparr>)
               shuffle_rotate_later 0 1000 = (Some ?g, 2)"
    by code_simp
  have keys: "round_pair_keys ?g = {|(''a'', ''d''), (''b'', ''c'')|}"
    by (simp add: round_pair_keys_Cons round_pair_keys_Nil group_pair_keys_def sorted_key_def
        Person_init_def upt_rec)
  have pre: "0 < group_size ?s
          \<and> int (length (people ?s)) mod group_size ?s = 0
          \<and> num_groups ?s = int (length (people ?s)) div group_size ?s
          \<and> distinct (map nickname (people ?s))
          \<and> (\<forall>c xs. mset (shuffle_rotate_later c xs) = mset xs)"
    by (simp add: Person_init_def shuffle_rotate_later_permutes)
  from create_new_round_commits [of ?s shuffle_rotate_later 0] run pre
  have "create_new_round shuffle_rotate_later (?s, 0)
         = (Inr ?g,
            (?s\<lparr>current_round := current_round ?s + 1,
               previous_meetings := previous_meetings ?s |\<union>| round_pair_keys ?g,
               round_history := round_history ?s @ [?g]\<rparr>, 2))
     \<and> structurally_valid (people ?s) (group_size ?s) ?g"
    by auto
  then show ?thesis
    by (simp add: keys)
qed

text \<open>
  Claim C6 as stated fails. The session of three people in groups of two has one
  group per round; the partition found leaves the third person out, and the round is
  committed all the same.
\<close>

theorem create_new_round_unvalidated_counterexample:
  "SocialGroupingProgram_init
     [Person_init ''a'' male_label, Person_init ''b'' female_label,
      Person_init ''c'' male_label] 2
     = Inr \<lparr>people = [Person_init ''a'' male_label, Person_init ''b'' female_label,
                      Person_init ''c'' male_label],
            group_size = 2, num_groups = 1, previous_meetings = {||}, round_history = [],
            current_round = 0\<rparr>
   \<and> create_new_round shuffle_identity
        (\<lparr>people = [Person_init ''a'' male_label, Person_init ''b'' female_label,
                    Person_init ''c'' male_label],
          group_size = 2, num_groups = 1, previous_meetings = {||}, round_history = [],
          current_round = 0\<rparr>, 0)
       = (Inr [[Person_init ''a'' male_label, Person_init ''b'' female_label]],
          (\<lparr>people = [Person_init ''a'' male_label, Person_init ''b'' female_label,
                      Person_init ''c'' male_label],
            group_size = 2, num_groups = 1, previous_meetings = {|(''a'', ''b'')|},
            round_history = [[[Person_init ''a'' male_label, Person_init ''b'' female_label]]],
            current_round = 1\<rparr>, 1))
   \<and> \<not> structurally_valid
          [Person_init ''a'' male_label, Person_init ''b'' female_label,
           Person_init ''c'' male_label] 2
          [[Person_init ''a'' male_label, Person_init ''b'' female_label]]"
proof (intro conjI)
  let ?ps = "[Person_init ''a'' male_label, Person_init ''b'' female_label,
              Person_init ''c'' male_label]"
  let ?s = "\<lparr>people = ?ps, group_size = 2, num_groups = 1, previous_meetings = {||},
             round_history = [], current_round = 0\<rparr>"
  let ?g = "[[Person_init ''a'' male_label, Person_init ''b'' female_label]]"
  show "SocialGroupingProgram_init ?ps 2 = Inr ?s"
    by (simp add: SocialGroupingProgram_init_def)
  have run: "generate_groups_genetic (?s\<lparr>current_round := current_round ?s + 1\<rparr>)
               shuffle_identity 0 1000 = (Some ?g, 1)"
    by code_simp
  have keys: "round_pair_keys ?g = {|(''a'', ''b'')|}"
    by (simp add: round_pair_keys_Cons round_pair_keys_Nil group_pair_keys_def sorted_key_def
        Person_init_def upt_rec)
  show "create_new_round shuffle_identity (?s, 0)
       = (Inr ?g,
          (\<lparr>people = ?ps, group_size = 2, num_groups = 1, previous_meetings = {|(''a'', ''b'')|},
            round_history = [?g], current_round = 1\<rparr>, 1))"
    unfolding create_new_round_result [OF run] by (simp add: keys)
  show "\<not> structurally_valid ?ps 2 ?g"
    by code_simp
qed

section \<open>Writes to the ledger\<close>

declare genetic_loop_st.simps [simp del]

lemma fold_keeps_session:
  assumes "\<And>x a. f x (a, s) = (g x a, s)"
  shows "fold f xs (a, s) = (fold g xs a, s)"
  by (induction xs arbitrary: a) (simp_all add: assms)

lemma get_meeting_count_st_eq:
  "get_meeting_count_st p q s = (get_meeting_count s p q, s)"
  by (simp add: get_meeting_count_st_def get_meeting_count_def Let_def)

lemma calculate_group_score_st_eq:
  "calculate_group_score_st grp s = (calculate_group_score s grp, s)"
proof -
  have inner: "fold (\<lambda>j (score, s).
                       case get_meeting_count_st (grp ! i) (grp ! j) s of
                         (met, s') \<Rightarrow> (score + met, s')) js (score, s)
      = (fold (\<lambda>j score. score + get_meeting_count s (grp ! i) (grp ! j)) js score, s)"
    for i js score
    by (rule fold_keeps_session) (simp add: get_meeting_count_st_eq)
  show ?thesis
    unfolding calculate_group_score_st_def calculate_group_score_def
    by (rule fold_keeps_session) (rule inner)
qed

lemma calculate_gender_balance_score_st_eq:
  "calculate_gender_balance_score_st grp s = (calculate_gender_balance_score s grp, s)"
  by (simp add: calculate_gender_balance_score_st_def calculate_gender_balance_score_def Let_def)

lemma total_score_st_eq: "total_score_st groups s = (total_score s groups, s)"
  unfolding total_score_st_def total_score_def
  by (rule fold_keeps_session)
     (simp add: calculate_group_score_st_eq calculate_gender_balance_score_st_eq)

lemma genetic_loop_st_done:
  "\<not> iteration < n \<Longrightarrow> genetic_loop_st sh pos n iteration st s = ((st, iteration), s)"
  by (cases st) (simp add: genetic_loop_st.simps)

lemma genetic_loop_st_step:
  assumes "iteration < n"
  shows "genetic_loop_st sh pos n iteration (best_groups, best) s =
     (if score_less (candidate_cost s sh (pos + iteration)) best then
        (if candidate_cost s sh (pos + iteration) = 0
         then (((Some (candidate s sh (pos + iteration)), Score 0), Suc iteration), s)
         else genetic_loop_st sh pos n (Suc iteration)
                (Some (candidate s sh (pos + iteration)),
                 Score (candidate_cost s sh (pos + iteration))) s)
      else genetic_loop_st sh pos n (Suc iteration) (best_groups, best) s)"
  using assms
  by (subst genetic_loop_st.simps)
     (simp add: Let_def total_score_st_eq candidate_cost_def candidate_def)

text \<open>
  The search leaves the session as it found it, over all its iterations, and finds
  what the search on that session finds.
\<close>

lemma genetic_loop_st_eq:
  "genetic_loop_st sh pos n iteration st s = (genetic_loop s sh pos n iteration st, s)"
proof (induction "n - iteration" arbitrary: iteration st)
  case 0
  then have "\<not> iteration < n" by simp
  then show ?case
    by (simp add: genetic_loop_st_done genetic_loop_done)
next
  case (Suc d)
  then have lt: "iteration < n" and d: "d = n - Suc iteration"
    by simp_all
  obtain best_groups best where st: "st = (best_groups, best)"
    by (cases st)
  show ?case
    unfolding st genetic_loop_st_step [OF lt] genetic_loop_step [OF lt]
    by (simp add: Suc.hyps(1) [OF d])
qed

lemma generate_groups_genetic_st_eq:
  "generate_groups_genetic_st sh max_iterations (s, pos)
     = (fst (generate_groups_genetic s sh pos max_iterations),
        (s, snd (generate_groups_genetic s sh pos max_iterations)))"
  by (simp add: generate_groups_genetic_st_def generate_groups_genetic_def genetic_loop_st_eq
      split: prod.splits)

lemma print_groups_st_eq: "print_groups_st groups r s = (print_groups s groups r, s)"
proof -
  have "fold (\<lambda>grp (t, s).
                case calculate_group_score_st grp s of (repeats, s') \<Rightarrow> (t + repeats, s'))
             groups (0, s)
      = (fold (\<lambda>grp t. t + calculate_group_score s grp) groups 0, s)"
    by (rule fold_keeps_session) (simp add: calculate_group_score_st_eq)
  then show ?thesis
    by (simp add: print_groups_st_def print_groups_def Let_def)
qed

lemma show_statistics_st_eq: "show_statistics_st s = (show_statistics s, s)"
  by (simp add: show_statistics_st_def show_statistics_def Let_def)

lemma save_history_st_eq: "save_history_st s = (save_history s, s)"
  by (simp add: save_history_st_def save_history_def)

lemma create_new_round_st_eq: "create_new_round_st sh (s, pos) = create_new_round sh (s, pos)"
proof -
  obtain found pos' where search:
    "generate_groups_genetic (s\<lparr>current_round := current_round s + 1\<rparr>) sh pos 1000
       = (found, pos')"
    by (cases "generate_groups_genetic (s\<lparr>current_round := current_round s + 1\<rparr>) sh pos 1000")
  show ?thesis
    by (cases found)
       (simp_all add: create_new_round_st_def create_new_round_def
          generate_groups_genetic_st_eq print_groups_st_eq search Let_def)
qed

lemma report_statistics_session: "snd (report_statistics s) = s"
  by (simp add: report_statistics_def show_statistics_st_eq split: sum.splits)

text \<open>
  Claim C8. Evaluating the cost leaves the session, and with it the ledger, as it
  was: this holds of the lookup of a pair, of the two scores, of the scoring of a
  partition and of the whole search, each of which returns the session it was given;
  so do printing, the statistics and the export. Of the commands of the session only
  \<open>go\<close> changes it, and it leaves it as \<open>create_new_round\<close> does: with the
  ledger that \<open>add_meetings\<close> makes of the ledger before the call and the partition
  that the search found on that ledger.
\<close>

theorem ledger_written_only_by_commit:
  "get_meeting_count_st p q s = (get_meeting_count s p q, s)
   \<and> calculate_group_score_st grp s = (calculate_group_score s grp, s)
   \<and> calculate_gender_balance_score_st grp s = (calculate_gender_balance_score s grp, s)
   \<and> total_score_st gs s = (total_score s gs, s)
   \<and> generate_groups_genetic_st sh max_iterations (s, pos)
       = (fst (generate_groups_genetic s sh pos max_iterations),
          (s, snd (generate_groups_genetic s sh pos max_iterations)))
   \<and> snd (print_groups_st gs r s) = s
   \<and> snd (show_statistics_st s) = s
   \<and> snd (save_history_st s) = s
   \<and> (\<exists>groups pos'.
        generate_groups_genetic (s\<lparr>current_round := current_round s + 1\<rparr>) sh pos 1000
          = (Some groups, pos')
        \<and> fst (create_new_round_st sh (s, pos)) = Inr groups
        \<and> previous_meetings (fst (snd (create_new_round_st sh (s, pos))))
            = previous_meetings (add_meetings s groups))
   \<and> (command \<notin> {''go'', ''g''} \<longrightarrow> snd (run_command sh command (s, pos)) = (s, pos))
   \<and> (command \<in> {''go'', ''g''} \<longrightarrow>
        snd (run_command sh command (s, pos)) = snd (create_new_round_st sh (s, pos)))"
proof (intro conjI impI)
  show "get_meeting_count_st p q s = (get_meeting_count s p q, s)"
    by (rule get_meeting_count_st_eq)
  show "calculate_group_score_st grp s = (calculate_group_score s grp, s)"
    by (rule calculate_group_score_st_eq)
  show "calculate_gender_balance_score_st grp s = (calculate_gender_balance_score s grp, s)"
    by (rule calculate_gender_balance_score_st_eq)
  show "total_score_st gs s = (total_score s gs, s)"
    by (rule total_score_st_eq)
  show "generate_groups_genetic_st sh max_iterations (s, pos)
       = (fst (generate_groups_genetic s sh pos max_iterations),
          (s, snd (generate_groups_genetic s sh pos max_iterations)))"
    by (rule generate_groups_genetic_st_eq)
  show "snd (print_groups_st gs r s) = s"
    by (simp add: print_groups_st_eq)
  show "snd (show_statistics_st s) = s"
    by (simp add: show_statistics_st_eq)
  show "snd (save_history_st s) = s"
    by (simp add: save_history_st_eq)
next
  let ?s1 = "s\<lparr>current_round := current_round s + 1\<rparr>"
  obtain j pos' where
    run: "generate_groups_genetic ?s1 sh pos 1000 = (Some (candidate ?s1 sh (pos + j)), pos')"
    using generate_groups_genetic_sampled [of 1000 ?s1 sh pos] by auto
  show "\<exists>groups pos'.
        generate_groups_genetic ?s1 sh pos 1000 = (Some groups, pos')
        \<and> fst (create_new_round_st sh (s, pos)) = Inr groups
        \<and> previous_meetings (fst (snd (create_new_round_st sh (s, pos))))
            = previous_meetings (add_meetings s groups)"
  proof (intro exI conjI)
    show "generate_groups_genetic ?s1 sh pos 1000 = (Some (candidate ?s1 sh (pos + j)), pos')"
      by (rule run)
    show "fst (create_new_round_st sh (s, pos)) = Inr (candidate ?s1 sh (pos + j))"
      unfolding create_new_round_st_eq create_new_round_result [OF run] by simp
    show "previous_meetings (fst (snd (create_new_round_st sh (s, pos))))
      = previous_meetings (add_meetings s (candidate ?s1 sh (pos + j)))"
      unfolding create_new_round_st_eq create_new_round_result [OF run]
      by (simp add: previous_meetings_add_meetings)
  qed
next
  assume other: "command \<notin> {''go'', ''g''}"
  have stat: "(case report_statistics s of (rep, s') \<Rightarrow> (rep, (s', pos)))
      = (fst (report_statistics s), (s, pos))"
    by (simp add: split_beta report_statistics_session)
  have save: "(case save_history_st s of (data, s') \<Rightarrow> (Report_export data, (s', pos)))
      = (Report_export (save_history s), (s, pos))"
    by (simp add: save_history_st_eq)
  from other have "run_command sh command (s, pos)
      = (if command \<in> {''stat'', ''s''} then (fst (report_statistics s), (s, pos))
         else if command = ''save'' then (Report_export (save_history s), (s, pos))
         else if command \<in> {''quit'', ''q''} then (Report_bye, (s, pos))
         else (Report_unknown, (s, pos)))"
    by (simp only: run_command_def if_False prod.case stat save)
  then show "snd (run_command sh command (s, pos)) = (s, pos)"
    by (simp only: snd_conv if_distrib [of snd] if_cancel)
next
  assume go: "command \<in> {''go'', ''g''}"
  obtain res s' pos' where round: "create_new_round_st sh (s, pos) = (res, (s', pos'))"
    by (metis prod_cases3)
  show "snd (run_command sh command (s, pos)) = snd (create_new_round_st sh (s, pos))"
  proof (cases res)
    case (Inl e)
    with go round show ?thesis
      by (simp add: run_command_def)
  next
    case (Inr groups)
    with go round show ?thesis
      by (simp add: run_command_def split_beta report_statistics_session)
  qed
qed

text \<open>
  Two people in one group of two: \<open>stat\<close> leaves the session as it is, and \<open>go\<close>
  leaves it with one more round and the pair in the ledger.
\<close>

theorem ledger_written_only_by_commit_witness:
  "''stat'' \<notin> {''go'', ''g''}
   \<and> snd (run_command shuffle_identity ''stat''
        (\<lparr>people = [Person_init ''a'' male_label, Person_init ''b'' female_label],
          group_size = 2, num_groups = 1, previous_meetings = {||}, round_history = [],
          current_round = 0\<rparr>, 0))
       = (\<lparr>people = [Person_init ''a'' male_label, Person_init ''b'' female_label],
           group_size = 2, num_groups = 1, previous_meetings = {||}, round_history = [],
           current_round = 0\<rparr>, 0)
   \<and> ''go'' \<in> {''go'', ''g''}
   \<and> snd (run_command shuffle_identity ''go''
        (\<lparr>people = [Person_init ''a'' male_label, Person_init ''b'' female_label],
          group_size = 2, num_groups = 1, previous_meetings = {||}, round_history = [],
          current_round = 0\<rparr>, 0))
       = (\<lparr>people = [Person_init ''a'' male_label, Person_init ''b'' female_label],
           group_size = 2, num_groups = 1, previous_meetings = {|(''a'', ''b'')|},
           round_history = [[[Person_init ''a'' male_label, Person_init ''b'' female_label]]],
           current_round = 1\<rparr>, 1)"
proof -
  let ?ps = "[Person_init ''a'' male_label, Person_init ''b'' female_label]"
  let ?s = "\<lparr>people = ?ps, group_size = 2, num_groups = 1, previous_meetings = {||},
             round_history = [], current_round = 0\<rparr>"
  have stat: "''stat'' \<notin> {''go'', ''g''}" and go: "''go'' \<in> {''go'', ''g''}"
    by simp_all
  have run: "generate_groups_genetic (?s\<lparr>current_round := current_round ?s + 1\<rparr>)
               shuffle_identity 0 1000 = (Some [?ps], 1)"
    by code_simp
  have keys: "round_pair_keys [?ps] = {|(''a'', ''b'')|}"
    by (simp add: round_pair_keys_Cons round_pair_keys_Nil group_pair_keys_def sorted_key_def
        Person_init_def upt_rec)
  have "snd (run_command shuffle_identity ''stat'' (?s, 0)) = (?s, 0)"
    by (rule ledger_written_only_by_commit
        [where s = ?s and sh = shuffle_identity and pos = 0,
          THEN conjunct2, THEN conjunct2, THEN conjunct2, THEN conjunct2, THEN conjunct2,
          THEN conjunct2, THEN conjunct2, THEN conjunct2, THEN conjunct2, THEN conjunct1,
          rule_format, OF stat])
  moreover
  have "snd (run_command shuffle_identity ''go'' (?s, 0))
      = snd (create_new_round_st shuffle_identity (?s, 0))"
    by (rule ledger_written_only_by_commit
        [where s = ?s and sh = shuffle_identity and pos = 0,
          THEN conjunct2, THEN conjunct2, THEN conjunct2, THEN conjunct2, THEN conjunct2,
          THEN conjunct2, THEN conjunct2, THEN conjunct2, THEN conjunct2, THEN conjunct2,
          rule_format, OF go])
  ultimately show ?thesis
    unfolding create_new_round_st_eq create_new_round_result [OF run] by (simp add: keys)
qed

end
